theory Spec2Isabelle
  imports Main "HOL-Library.Char_ord" "HOL-Library.List_Lexorder"
begin

section \<open>JavaScript values\<close>

text \<open>
  The configuration handed to the synchronisation service is a parsed YAML document, so
  the code works on plain JavaScript values. Objects are kept as the list of their own
  properties in enumeration order (the order \<open>Object.keys\<close> and \<open>JSON.stringify\<close>
  see); numbers are opaque scalars for this code and are kept as integers.
\<close>

datatype json =
    JUndefined
  | JNull
  | JBool bool
  | JNum int
  | JStr string
  | JArr "json list"
  | JObj "(string \<times> json) list"

type_synonym jsobject = "(string \<times> json) list"

text \<open>Truthiness, as \<open>if (v)\<close>, \<open>!v\<close> and \<open>a || b\<close> test it.\<close>

fun truthy :: "json \<Rightarrow> bool" where
  "truthy JUndefined = False"
| "truthy JNull = False"
| "truthy (JBool b) = b"
| "truthy (JNum n) = (n \<noteq> 0)"
| "truthy (JStr s) = (s \<noteq> [])"
| "truthy (JArr xs) = True"
| "truthy (JObj kvs) = True"

definition js_or :: "json \<Rightarrow> json \<Rightarrow> json" where
  "js_or a b = (if truthy a then a else b)"

text \<open>An optional string field of a declaration: absent is \<open>undefined\<close>.\<close>

definition ostr :: "string option \<Rightarrow> json" where
  "ostr s = (case s of None \<Rightarrow> JUndefined | Some t \<Rightarrow> JStr t)"

definition truthy_str :: "string option \<Rightarrow> bool" where
  "truthy_str s = truthy (ostr s)"

definition or_str :: "string option \<Rightarrow> string option \<Rightarrow> string option" where
  "or_str a b = (if truthy_str a then a else b)"

subsection \<open>Own properties\<close>

text \<open>
  A property name that is an array index (the canonical decimal form of a number below
  \<open>2^32 - 1\<close>) is enumerated before every other name, in ascending numeric order; the
  other names follow in the order of their creation.
\<close>

definition is_digit :: "char \<Rightarrow> bool" where
  "is_digit c = (CHR ''0'' \<le> c \<and> c \<le> CHR ''9'')"

definition dec_value :: "string \<Rightarrow> int" where
  "dec_value k = foldl (\<lambda>n c. 10 * n + (of_char c - 48)) 0 k"

definition is_array_index :: "string \<Rightarrow> bool" where
  "is_array_index k =
     (k \<noteq> [] \<and> list_all is_digit k \<and> (k = ''0'' \<or> hd k \<noteq> CHR ''0'')
      \<and> dec_value k \<le> 4294967294)"

definition obj_get :: "jsobject \<Rightarrow> string \<Rightarrow> json" where
  "obj_get kvs key = (case map_of kvs key of None \<Rightarrow> JUndefined | Some v \<Rightarrow> v)"

definition precedes_index :: "string \<Rightarrow> string \<times> 'a \<Rightarrow> bool" where
  "precedes_index key p = (is_array_index (fst p) \<and> dec_value (fst p) < dec_value key)"

definition obj_set :: "(string \<times> 'a) list \<Rightarrow> string \<Rightarrow> 'a \<Rightarrow> (string \<times> 'a) list" where
  "obj_set kvs key val =
     (if key \<in> set (map fst kvs)
        then map (\<lambda>p. if fst p = key then (key, val) else p) kvs
      else if is_array_index key
        then takeWhile (precedes_index key) kvs @ [(key, val)] @ dropWhile (precedes_index key) kvs
      else kvs @ [(key, val)])"

definition object_keys :: "(string \<times> 'a) list \<Rightarrow> string list" where
  "object_keys kvs = map fst kvs"

text \<open>\<open>Object.assign(target, source)\<close>: every own property of the source, in order.\<close>

definition object_assign :: "(string \<times> 'a) list \<Rightarrow> (string \<times> 'a) list \<Rightarrow> (string \<times> 'a) list" where
  "object_assign target source = foldl (\<lambda>t p. obj_set t (fst p) (snd p)) target source"

section \<open>Hash utilities (hashUtils.js)\<close>

lemma size_obj_get:
  "key \<in> set (map fst kvs) \<Longrightarrow> size (obj_get kvs key) < size (JObj kvs)"
proof -
  assume "key \<in> set (map fst kvs)"
  then obtain v where v: "map_of kvs key = Some v"
    by (metis map_of_eq_None_iff not_Some_eq set_map)
  then have "(key, v) \<in> set kvs"
    by (rule map_of_SomeD)
  then have "size v < Suc (size_list (size_prod (\<lambda>_. 0) size) kvs)"
    by (induction kvs) auto
  with v show ?thesis
    by (simp add: obj_get_def)
qed

function sortObject :: "json \<Rightarrow> json" where
  "sortObject JUndefined = JUndefined"
| "sortObject JNull = JNull"
| "sortObject (JArr xs) = JArr (map sortObject xs)"
| "sortObject (JBool b) = JBool b"
| "sortObject (JNum n) = JNum n"
| "sortObject (JStr s) = JStr s"
| "sortObject (JObj kvs) =
     JObj (foldl (\<lambda>sorted key. obj_set sorted key (sortObject (obj_get kvs key)))
            [] (sort (object_keys kvs)))"
  by pat_completeness auto
termination
proof (relation "measure size")
  show "wf (measure size)" by simp
next
  fix xs :: "json list" and x
  assume "x \<in> set xs"
  then have "size x < Suc (size_list size xs)"
    by (induction xs) auto
  then show "(x, JArr xs) \<in> measure size" by simp
next
  fix kvs :: jsobject and sorted :: jsobject and key
  assume "key \<in> set (sort (object_keys kvs))"
  then have "key \<in> set (map fst kvs)" by (simp add: object_keys_def)
  then show "(obj_get kvs key, JObj kvs) \<in> measure size"
    using size_obj_get by simp
qed


text \<open>
  The hashing primitives come from the platform: \<open>JSON.stringify\<close> and the SHA-256
  hex digest of \<open>crypto\<close>. They are parameters of the model.
\<close>

datatype error = Error (message: string)

record hashing =
  JSON_stringify :: "json \<Rightarrow> string"
  sha256_hex :: "string \<Rightarrow> string"

text \<open>
  \<open>calculateHash\<close>: the digest is computed first; the debug line that follows reads
  \<open>Object.keys(data)\<close>, which throws on \<open>null\<close> (for \<open>undefined\<close> the digest itself
  throws, \<open>JSON.stringify\<close> returning no string), and the handler rethrows with the prefix
  below.
\<close>

definition calculateHash :: "hashing \<Rightarrow> json \<Rightarrow> error + string" where
  "calculateHash h data =
     (let sortedData = sortObject data;
          jsonString = JSON_stringify h sortedData;
          hash = sha256_hex h jsonString
      in case data of
           JUndefined \<Rightarrow> Inl (Error (''Hash calculation failed: '' @ ''The data argument must be of type string''))
         | JNull \<Rightarrow> Inl (Error (''Hash calculation failed: '' @ ''Cannot convert undefined or null to object''))
         | _ \<Rightarrow> Inr hash)"

definition hashesEqual :: "string \<Rightarrow> string \<Rightarrow> bool" where
  "hashesEqual hash1 hash2 = (hash1 = hash2)"

definition generateActionId :: "string \<Rightarrow> string \<Rightarrow> string" where
  "generateActionId domain agentId = domain @ ''_'' @ agentId"

subsection \<open>Declarations\<close>

text \<open>
  An action declaration. Its \<open>auth\<close> block stays a plain object, because the code copies
  its properties wholesale with \<open>Object.assign\<close>.
\<close>

record actionConfig =
  domain :: "string option"
  spec :: "string option"
  specFile :: "string option"
  auth :: "jsobject option"
  privacy_policy_url :: "string option"

text \<open>
  An agent declaration. Its field \<open>id\<close> is called \<open>agentId\<close> here, the name the code
  gives it when it passes it on. The nested maps \<open>model_parameters\<close> and
  \<open>tool_resources\<close> are plain values.
\<close>

record agentConfig =
  agentId :: "string option"
  name :: "string option"
  description :: "string option"
  instructions :: "string option"
  instructionsFile :: "string option"
  icon :: "string option"
  iconFile :: "string option"
  provider :: "string option"
  model :: "string option"
  category :: "string option"
  model_parameters :: json
  recursion_limit :: "int option"
  tools :: "string list option"
  tool_resources :: json
  actions :: "actionConfig list option"

record avatar =
  filepath :: string
  source :: string

definition onum :: "int option \<Rightarrow> json" where
  "onum n = (case n of None \<Rightarrow> JUndefined | Some i \<Rightarrow> JNum i)"

definition ostrs :: "string list option \<Rightarrow> json" where
  "ostrs ts = (case ts of None \<Rightarrow> JUndefined | Some xs \<Rightarrow> JArr (map JStr xs))"

text \<open>\<open>avatar?.filepath\<close>\<close>

definition avatar_filepath :: "avatar option \<Rightarrow> string option" where
  "avatar_filepath av = map_option filepath av"

definition calculateAgentConfigHash ::
  "hashing \<Rightarrow> agentConfig \<Rightarrow> string option \<Rightarrow> avatar option \<Rightarrow> error + string" where
  "calculateAgentConfigHash h agentConfig instrs av =
     (let hashData = JObj
        [(''id'', ostr (agentId agentConfig)),
         (''name'', ostr (name agentConfig)),
         (''description'', ostr (description agentConfig)),
         (''instructions'', ostr (or_str instrs (instructions agentConfig))),
         (''provider'', ostr (provider agentConfig)),
         (''model'', ostr (model agentConfig)),
         (''category'', ostr (category agentConfig)),
         (''model_parameters'', model_parameters agentConfig),
         (''recursion_limit'', onum (recursion_limit agentConfig)),
         (''tools'', ostrs (tools agentConfig)),
         (''tool_resources'', tool_resources agentConfig),
         (''avatar_filepath'', ostr (or_str (avatar_filepath av) (icon agentConfig)))]
      in calculateHash h hashData)"

subsection \<open>Equality up to the order of keys\<close>

text \<open>
  Two values have the same content when they agree as scalars, are arrays with
  element-wise the same content in the same order, or are objects with the same keys whose
  values have the same content, whatever order the keys are listed in.
\<close>

function same_content :: "json \<Rightarrow> json \<Rightarrow> bool" where
  "same_content (JObj a) w =
     (case w of
        JObj b \<Rightarrow> distinct (map fst a) \<and> distinct (map fst b)
                  \<and> set (map fst a) = set (map fst b)
                  \<and> (\<forall>k \<in> set (map fst a). same_content (obj_get a k) (obj_get b k))
      | _ \<Rightarrow> False)"
| "same_content (JArr xs) w =
     (case w of JArr ys \<Rightarrow> list_all2 same_content xs ys | _ \<Rightarrow> False)"
| "same_content JUndefined w = (w = JUndefined)"
| "same_content JNull w = (w = JNull)"
| "same_content (JBool b) w = (w = JBool b)"
| "same_content (JNum n) w = (w = JNum n)"
| "same_content (JStr s) w = (w = JStr s)"
  by pat_completeness auto
termination
proof (relation "measure (\<lambda>(v, w). size v)")
  show "wf (measure (\<lambda>(v, w). size v))" by simp
next
  fix a :: jsobject and w :: json and b :: jsobject and k
  assume "k \<in> set (map fst a)"
  then show "((obj_get a k, obj_get b k), (JObj a, w)) \<in> measure (\<lambda>(v, w). size v)"
    using size_obj_get by simp
next
  fix xs :: "json list" and w :: json and ys :: "json list" and x y
  assume "x \<in> set xs"
  then have "size x < Suc (size_list size xs)"
    by (induction xs) auto
  then show "((x, y), (JArr xs, w)) \<in> measure (\<lambda>(v, w). size v)" by simp
qed

section \<open>Loading configuration files (loadConfigFile.js)\<close>

subsection \<open>The \<open>path\<close> module on POSIX\<close>

definition isAbsolute :: "string \<Rightarrow> bool" where
  "isAbsolute p = (p \<noteq> [] \<and> hd p = CHR ''/'')"

fun split_path :: "string \<Rightarrow> string list" where
  "split_path [] = [[]]"
| "split_path (c # cs) =
     (if c = CHR ''/'' then [] # split_path cs
      else (case split_path cs of [] \<Rightarrow> [[c]] | s # ss \<Rightarrow> (c # s) # ss))"

definition normalize_step :: "string list \<Rightarrow> string \<Rightarrow> string list" where
  "normalize_step stack seg =
     (if seg = [] \<or> seg = ''.'' then stack
      else if seg = ''..'' then butlast stack
      else stack @ [seg])"

definition join_absolute :: "string list \<Rightarrow> string" where
  "join_absolute segs = (if segs = [] then ''/'' else concat (map (\<lambda>s. CHR ''/'' # s) segs))"

text \<open>
  \<open>path.resolve(...paths)\<close> reads its arguments from the right until it meets an absolute
  one, skips empty ones, falls back to the working directory, and normalises the result.
  \<open>gather\<close> takes the arguments rightmost first.
\<close>

fun gather :: "string \<Rightarrow> string list \<Rightarrow> string" where
  "gather wd [] = wd"
| "gather wd (p # ps) =
     (if p = [] then gather wd ps
      else if isAbsolute p then p
      else gather wd ps @ ''/'' @ p)"

definition path_resolve :: "string \<Rightarrow> string list \<Rightarrow> string" where
  "path_resolve wd paths =
     join_absolute (foldl normalize_step [] (split_path (gather wd (rev paths))))"

text \<open>\<open>path.dirname\<close>: trailing slashes are skipped, then the last segment is cut off.\<close>

definition path_dirname :: "string \<Rightarrow> string" where
  "path_dirname p =
     (if p = [] then ''.''
      else let hasRoot = (hd p = CHR ''/'');
               r = dropWhile (\<lambda>c. c \<noteq> CHR ''/'') (dropWhile (\<lambda>c. c = CHR ''/'') (rev (tl p)));
               end = length r
           in if r = [] then (if hasRoot then ''/'' else ''.'')
              else if hasRoot \<and> end = 1 then ''//''
              else take end p)"

definition path_basename :: "string \<Rightarrow> string" where
  "path_basename p = rev (takeWhile (\<lambda>c. c \<noteq> CHR ''/'') (dropWhile (\<lambda>c. c = CHR ''/'') (rev p)))"

text \<open>\<open>path.extname\<close>: from the last dot of the base name, unless that dot opens it.\<close>

definition path_extname :: "string \<Rightarrow> string" where
  "path_extname p =
     (let base = path_basename p;
          tail = takeWhile (\<lambda>c. c \<noteq> CHR ''.'') (rev base)
      in if CHR ''.'' \<notin> set base \<or> base = ''..'' \<or> length tail + 1 = length base then []
         else CHR ''.'' # rev tail)"

definition lower_char :: "char \<Rightarrow> char" where
  "lower_char c =
     (if CHR ''A'' \<le> c \<and> c \<le> CHR ''Z'' then char_of (of_char c + (32::nat)) else c)"

definition toLowerCase :: "string \<Rightarrow> string" where
  "toLowerCase s = map lower_char s"

definition startsWith :: "string \<Rightarrow> string \<Rightarrow> bool" where
  "startsWith s pre = (take (length pre) s = pre)"

subsection \<open>The host: working directory, environment, file system, parsers\<close>

record host =
  cwd :: string
  CONFIG_PATH :: "string option"
  fs_access :: "string \<Rightarrow> bool"
  fs_readFile :: "string \<Rightarrow> error + string"
  yaml_load :: "string \<Rightarrow> error + json"
  JSON_parse :: "string \<Rightarrow> error + json"

text \<open>What a file loads to: text and parsed documents are values, binary files a buffer.\<close>

datatype content = Value json | Buffer string

definition configDir :: "host \<Rightarrow> string" where
  "configDir hst =
     (if truthy_str (CONFIG_PATH hst)
        then path_dirname (path_resolve (cwd hst) [the (CONFIG_PATH hst)])
      else cwd hst)"

definition resolveConfigFilePath :: "host \<Rightarrow> string \<Rightarrow> string" where
  "resolveConfigFilePath hst filePath =
     (if isAbsolute filePath then filePath
      else path_resolve (cwd hst) [configDir hst, filePath])"

definition validateFilePath :: "host \<Rightarrow> string \<Rightarrow> string \<Rightarrow> error + unit" where
  "validateFilePath hst filePath baseDir =
     (let resolvedPath = path_resolve (cwd hst) [filePath];
          resolvedBase = path_resolve (cwd hst) [baseDir]
      in if isAbsolute filePath then Inr ()
         else if \<not> startsWith resolvedPath resolvedBase
           then Inl (Error (''Path traversal detected: '' @ filePath
                            @ '' attempts to access files outside base directory''))
         else Inr ())"

definition detectType :: "string \<Rightarrow> string \<Rightarrow> string" where
  "detectType fileType resolvedPath =
     (if fileType = ''auto''
        then let ext = toLowerCase (path_extname resolvedPath)
             in if ext = ''.yaml'' \<or> ext = ''.yml'' then ''yaml''
                else if ext = ''.json'' then ''json''
                else if ext = ''.txt'' \<or> ext = ''.md'' then ''text''
                else ''text''
      else fileType)"

definition readContent :: "host \<Rightarrow> string \<Rightarrow> string \<Rightarrow> error + content" where
  "readContent hst resolvedPath detectedType =
     (case fs_readFile hst resolvedPath of
        Inl e \<Rightarrow> Inl e
      | Inr fileContent \<Rightarrow>
          if detectedType = ''binary'' then Inr (Buffer fileContent)
          else if detectedType = ''yaml''
            then (case yaml_load hst fileContent of Inl e \<Rightarrow> Inl e | Inr v \<Rightarrow> Inr (Value v))
          else if detectedType = ''json''
            then (case JSON_parse hst fileContent of Inl e \<Rightarrow> Inl e | Inr v \<Rightarrow> Inr (Value v))
          else Inr (Value (JStr fileContent)))"

text \<open>
  The body of \<open>loadConfigFile\<close> inside its \<open>try\<close>; the handler wraps whatever was thrown.
\<close>

definition loadConfigFile_body :: "host \<Rightarrow> string \<Rightarrow> string \<Rightarrow> error + content" where
  "loadConfigFile_body hst filePath fileType =
     (let resolvedPath = resolveConfigFilePath hst filePath
      in case (if \<not> isAbsolute filePath
                 then validateFilePath hst resolvedPath (configDir hst) else Inr ()) of
           Inl e \<Rightarrow> Inl e
         | Inr _ \<Rightarrow>
             if \<not> fs_access hst resolvedPath
               then Inl (Error (''File not found: '' @ resolvedPath))
             else readContent hst resolvedPath (detectType fileType resolvedPath))"

definition loadConfigFile :: "host \<Rightarrow> string \<Rightarrow> string \<Rightarrow> error + content" where
  "loadConfigFile hst filePath fileType =
     (case loadConfigFile_body hst filePath fileType of
        Inl e \<Rightarrow> Inl (Error (''Failed to load config file '' @ filePath @ '': '' @ message e))
      | Inr c \<Rightarrow> Inr c)"

text \<open>A relative path escapes the base directory when its resolution is not inside it.\<close>

definition descendant :: "string \<Rightarrow> string \<Rightarrow> bool" where
  "descendant resolved base =
     (let b = foldl normalize_step [] (split_path base);
          r = foldl normalize_step [] (split_path resolved)
      in take (length b) r = b)"

section \<open>Validation (validateConfigFile.js)\<close>

subsection \<open>String conversions\<close>

definition digit_char :: "nat \<Rightarrow> char" where
  "digit_char d = char_of (48 + d)"

fun show_nat :: "nat \<Rightarrow> string" where
  "show_nat n = (if n < 10 then [digit_char n] else show_nat (n div 10) @ [digit_char (n mod 10)])"

definition show_int :: "int \<Rightarrow> string" where
  "show_int i = (if i < 0 then CHR ''-'' # show_nat (nat (- i)) else show_nat (nat i))"

fun join_with :: "string \<Rightarrow> string list \<Rightarrow> string" where
  "join_with sep [] = []"
| "join_with sep [x] = x"
| "join_with sep (x # y # ys) = x @ sep @ join_with sep (y # ys)"

text \<open>\<open>String(v)\<close>, as a template literal applies it.\<close>

fun js_String :: "json \<Rightarrow> string" where
  "js_String JUndefined = ''undefined''"
| "js_String JNull = ''null''"
| "js_String (JBool b) = (if b then ''true'' else ''false'')"
| "js_String (JNum n) = show_int n"
| "js_String (JStr s) = s"
| "js_String (JArr xs) =
     join_with '','' (map (\<lambda>v. if v = JNull \<or> v = JUndefined then [] else js_String v) xs)"
| "js_String (JObj kvs) = ''[object Object]''"

definition tmpl :: "string option \<Rightarrow> string" where
  "tmpl s = js_String (ostr s)"

definition is_space :: "char \<Rightarrow> bool" where
  "is_space c = (c = CHR '' '' \<or> ((9::nat) \<le> of_char c \<and> of_char c \<le> (13::nat)))"

definition trim :: "string \<Rightarrow> string" where
  "trim s = rev (dropWhile is_space (rev (dropWhile is_space s)))"

text \<open>Reading a property of any value: only objects have the properties read here.\<close>

definition get_prop :: "json \<Rightarrow> string \<Rightarrow> json" where
  "get_prop v key = (case v of JObj kvs \<Rightarrow> obj_get kvs key | _ \<Rightarrow> JUndefined)"

subsection \<open>Specifications and instructions\<close>

definition validateYAML :: "host \<Rightarrow> string \<Rightarrow> error + json" where
  "validateYAML hst content =
     (case yaml_load hst content of
        Inl e \<Rightarrow> Inl (Error (''Invalid YAML: '' @ message e))
      | Inr parsed \<Rightarrow> Inr parsed)"

definition validateJSON :: "host \<Rightarrow> string \<Rightarrow> error + json" where
  "validateJSON hst content =
     (case JSON_parse hst content of
        Inl e \<Rightarrow> Inl (Error (''Invalid JSON: '' @ message e))
      | Inr parsed \<Rightarrow> Inr parsed)"

definition is_object :: "json \<Rightarrow> bool" where
  "is_object v = (case v of JObj _ \<Rightarrow> True | JArr _ \<Rightarrow> True | JNull \<Rightarrow> True | _ \<Rightarrow> False)"

definition validateOpenAPISpec :: "json \<Rightarrow> error + json" where
  "validateOpenAPISpec doc =
     (if \<not> truthy doc \<or> \<not> is_object doc then Inl (Error ''OpenAPI doc must be an object'')
      else let version = js_or (get_prop doc ''openapi'') (get_prop doc ''swagger'')
           in if \<not> truthy version then Inl (Error ''Missing openapi or swagger version field'')
              else if \<not> truthy (get_prop doc ''info'') then Inl (Error ''Missing required field: info'')
              else if \<not> truthy (get_prop doc ''paths'') \<and> \<not> truthy (get_prop doc ''components'')
                then Inl (Error ''Spec must have either paths or components'')
              else Inr version)"

text \<open>
  \<open>validateActionSpec\<close> with its default format \<open>auto\<close>: YAML first, then JSON. The
  parsers receive the text of the value.
\<close>

definition validateActionSpec :: "host \<Rightarrow> json \<Rightarrow> error + json" where
  "validateActionSpec hst specContent =
     (case validateYAML hst (js_String specContent) of
        Inr parsed \<Rightarrow>
          (case validateOpenAPISpec parsed of Inl e \<Rightarrow> Inl e | Inr _ \<Rightarrow> Inr parsed)
      | Inl yamlError \<Rightarrow>
          (case validateJSON hst (js_String specContent) of
             Inr parsed \<Rightarrow>
               (case validateOpenAPISpec parsed of Inl e \<Rightarrow> Inl e | Inr _ \<Rightarrow> Inr parsed)
           | Inl jsonError \<Rightarrow>
               Inl (Error (''Invalid spec format. YAML error: '' @ message yamlError
                           @ ''. JSON error: '' @ message jsonError))))"

definition validateInstructions :: "json \<Rightarrow> error + unit" where
  "validateInstructions instrs =
     (case instrs of
        JStr s \<Rightarrow>
          if length (trim s) = 0 then Inl (Error ''Instructions cannot be empty'')
          else if int (length s) > 10000
            then Inl (Error (''Instructions too long: '' @ show_nat (length s)
                             @ '' characters (max: 10000)''))
          else Inr ()
      | _ \<Rightarrow> Inl (Error ''Instructions must be a string''))"

subsection \<open>Declarations\<close>

definition validAuthTypes :: "json list" where
  "validAuthTypes = [JStr ''service_http'', JStr ''oauth'', JStr ''none'']"

definition validateActionConfig :: "actionConfig \<Rightarrow> string list" where
  "validateActionConfig actionConfig =
     (if \<not> truthy_str (domain actionConfig) then [''Missing required field: domain''] else [])
     @ (if \<not> truthy_str (spec actionConfig) \<and> \<not> truthy_str (specFile actionConfig)
          then [''Action must have either spec or specFile''] else [])
     @ (case auth actionConfig of
          None \<Rightarrow> []
        | Some a \<Rightarrow>
            (if \<not> truthy (obj_get a ''type'') then [''Auth configuration must have a type''] else [])
            @ (if truthy (obj_get a ''type'') \<and> obj_get a ''type'' \<notin> set validAuthTypes
                 then [''Invalid auth type: '' @ js_String (obj_get a ''type'')] else [])
            @ (if obj_get a ''type'' = JStr ''oauth''
                 then (if \<not> truthy (obj_get a ''client_url'')
                         then [''OAuth auth requires client_url''] else [])
                      @ (if \<not> truthy (obj_get a ''authorization_url'')
                           then [''OAuth auth requires authorization_url''] else [])
               else []))"

fun action_errors :: "nat \<Rightarrow> actionConfig list \<Rightarrow> string list" where
  "action_errors index [] = []"
| "action_errors index (action # rest) =
     (let errs = validateActionConfig action
      in (if errs \<noteq> [] then [''Action '' @ show_nat index @ '': '' @ join_with '', '' errs] else [])
         @ action_errors (Suc index) rest)"

definition validateAgentConfig :: "agentConfig \<Rightarrow> string list" where
  "validateAgentConfig agentConfig =
     concat (map (\<lambda>(field, v). if \<not> truthy_str v then [''Missing required field: '' @ field] else [])
               [(''id'', agentId agentConfig), (''name'', name agentConfig),
                (''provider'', provider agentConfig), (''model'', model agentConfig)])
     @ (if \<not> truthy_str (instructions agentConfig) \<and> \<not> truthy_str (instructionsFile agentConfig)
          then [''Agent must have either instructions or instructionsFile''] else [])
     @ (case actions agentConfig of None \<Rightarrow> [] | Some acts \<Rightarrow> action_errors 0 acts)"

section \<open>The store and the collaborators\<close>

record agentData =
  d_name :: "string option"
  d_description :: "string option"
  d_instructions :: "string option"
  d_avatar :: "avatar option"
  d_provider :: "string option"
  d_model :: "string option"
  d_category :: string
  d_model_parameters :: json
  d_recursion_limit :: "int option"
  d_tools :: "string list"
  d_tool_resources :: json

text \<open>
  A stored agent: its identifier, its author, the fields written from the declaration, the
  list of its action identifiers, and the \<open>configHash\<close> of each of its versions, oldest
  first (\<open>None\<close> for a version without one).
\<close>

record agentRecord =
  rec_id :: string
  rec_author :: string
  rec_data :: agentData
  rec_actions :: "string list"
  rec_versions :: "string option list"

record actionRecord =
  action_id :: string
  user :: string
  agent_id :: string
  action_type :: string
  metadata :: jsobject

text \<open>What an \<open>updateAgent\<close> call carries: the declaration's fields with a new hash, or the action list.\<close>

record agentUpdate =
  upd_data :: "agentData option"
  upd_version_hash :: "string option"
  upd_actions :: "string list option"

datatype dbOp =
    GetAgent string
  | FindAgents
  | CreateAgent string
  | UpdateAgent string
  | DeleteAgent string
  | UpdateAction string
  | DeleteAction string

text \<open>
  The store holds the agents and the actions, the journal of the write operations that
  succeeded (in order), and the count of identifiers drawn so far by \<open>uuidv4\<close>.
\<close>

record store =
  st_agents :: "agentRecord list"
  st_actions :: "actionRecord list"
  st_journal :: "dbOp list"
  st_uuid :: nat

text \<open>
  The collaborators of a run: the host, the hashing primitives, the environment variable
  naming the system owner, the encryption primitive of \<open>@librechat/api\<close> with
  \<open>encodeURIComponent\<close>, the avatar pipeline (size check, resize and upload of the image at
  a resolved path, for an agent, under a fresh file name), and the operations of the
  database that fail.
\<close>

record world =
  w_host :: host
  w_hashing :: hashing
  DEFAULT_OBJECT_ID :: "string option"
  encryptV2 :: "string \<Rightarrow> error + string"
  encodeURIComponent :: "string \<Rightarrow> string"
  upload_avatar :: "string \<Rightarrow> string \<Rightarrow> nat \<Rightarrow> error + avatar"
  db_fails :: "dbOp \<Rightarrow> bool"

type_synonym 'a db = "store \<Rightarrow> (error + 'a) \<times> store"

definition db_error :: "dbOp \<Rightarrow> error" where
  "db_error op = Error ''database operation failed''"

subsection \<open>Persistence\<close>

text \<open>
  The persistence layer (\<open>~/models/Agent\<close>, \<open>~/models/Action\<close> and \<open>Agent.find\<close> of
  \<open>~/db/models\<close>) is not part of the sources; the spec gives its interface (section 6)
  and the life of a record (section 3). Each call is atomic and may fail as a whole; a
  call that fails leaves the store as it was.
\<close>

text \<open>
  Modelled from the spec: \<open>getAgent({id, owner})\<close> of the absent persistence layer
  returns the record with this id and owner, or null.
\<close>

definition getAgent :: "world \<Rightarrow> string \<Rightarrow> string \<Rightarrow> agentRecord option db" where
  "getAgent w i author st =
     (if db_fails w (GetAgent i) then (Inl (db_error (GetAgent i)), st)
      else (Inr (find (\<lambda>r. rec_id r = i \<and> rec_author r = author) (st_agents st)), st))"

text \<open>
  Modelled from the spec: \<open>listAgentsByOwner(owner)\<close> of the absent persistence layer
  (\<open>Agent.find({author})\<close> in the code) lists the records of an owner.
\<close>

definition findAgents :: "world \<Rightarrow> string \<Rightarrow> agentRecord list db" where
  "findAgents w author st =
     (if db_fails w FindAgents then (Inl (db_error FindAgents), st)
      else (Inr (filter (\<lambda>r. rec_author r = author) (st_agents st)), st))"

text \<open>
  Modelled from the spec: \<open>createAgent(fields)\<close> of the absent persistence layer
  stores a new record with the fields given (id, author, the fields of the declaration)
  and a first version that carries the hash, and returns it.
\<close>

definition createAgent :: "world \<Rightarrow> string \<Rightarrow> string \<Rightarrow> agentData \<Rightarrow> string \<Rightarrow> agentRecord db" where
  "createAgent w i author dat configHash st =
     (if db_fails w (CreateAgent i)
        then (Inl (db_error (CreateAgent i)), st)
      else let r = \<lparr> rec_id = i, rec_author = author, rec_data = dat, rec_actions = [],
                      rec_versions = [Some configHash] \<rparr>
           in (Inr r, st\<lparr> st_agents := st_agents st @ [r],
                           st_journal := st_journal st @ [CreateAgent i] \<rparr>))"

text \<open>
  Modelled from the spec: what \<open>updateAgent\<close> of the absent persistence layer writes
  into a record. An update that carries a hash appends a version with it; an update of
  the action list leaves the versions as they are.
\<close>

definition apply_update :: "agentUpdate \<Rightarrow> agentRecord \<Rightarrow> agentRecord" where
  "apply_update u r =
     r\<lparr> rec_data := (case upd_data u of None \<Rightarrow> rec_data r | Some d \<Rightarrow> d),
        rec_actions := (case upd_actions u of None \<Rightarrow> rec_actions r | Some a \<Rightarrow> a),
        rec_versions := (case upd_version_hash u of None \<Rightarrow> rec_versions r
                         | Some h \<Rightarrow> rec_versions r @ [Some h]) \<rparr>"

text \<open>
  Modelled from the spec: \<open>updateAgent(selector, fields)\<close> of the absent persistence
  layer returns the updated record, or null when no record has the id of the selector.
\<close>

definition updateAgent :: "world \<Rightarrow> string \<Rightarrow> agentUpdate \<Rightarrow> agentRecord option db" where
  "updateAgent w i u st =
     (if db_fails w (UpdateAgent i) then (Inl (db_error (UpdateAgent i)), st)
      else case find (\<lambda>r. rec_id r = i) (st_agents st) of
             None \<Rightarrow> (Inr None, st)
           | Some r \<Rightarrow>
               (Inr (Some (apply_update u r)),
                st\<lparr> st_agents := map (\<lambda>x. if rec_id x = i then apply_update u x else x) (st_agents st),
                    st_journal := st_journal st @ [UpdateAgent i] \<rparr>))"

text \<open>
  Modelled from the spec: \<open>deleteAgent(selector)\<close> of the absent persistence layer
  removes the record with this id and owner and returns nothing.
\<close>

definition deleteAgent :: "world \<Rightarrow> string \<Rightarrow> string \<Rightarrow> unit db" where
  "deleteAgent w i author st =
     (if db_fails w (DeleteAgent i) then (Inl (db_error (DeleteAgent i)), st)
      else (Inr (),
            st\<lparr> st_agents := filter (\<lambda>r. \<not> (rec_id r = i \<and> rec_author r = author)) (st_agents st),
                st_journal := st_journal st @ [DeleteAgent i] \<rparr>))"

text \<open>
  Modelled from the spec: \<open>updateAction\<close> of the absent persistence layer is an upsert
  by \<open>(action_id, user)\<close> and returns the record.
\<close>

definition updateAction :: "world \<Rightarrow> string \<Rightarrow> string \<Rightarrow> actionRecord \<Rightarrow> actionRecord db" where
  "updateAction w aid usr actionData st =
     (if db_fails w (UpdateAction aid) then (Inl (db_error (UpdateAction aid)), st)
      else (Inr actionData,
            st\<lparr> st_actions :=
                  (if \<exists>x \<in> set (st_actions st). action_id x = aid \<and> user x = usr
                     then map (\<lambda>x. if action_id x = aid \<and> user x = usr then actionData else x)
                            (st_actions st)
                   else st_actions st @ [actionData]),
                st_journal := st_journal st @ [UpdateAction aid] \<rparr>))"

text \<open>
  Modelled from the spec: \<open>deleteAction\<close> of the absent persistence layer removes the
  action with this id and user and returns nothing.
\<close>

definition deleteAction :: "world \<Rightarrow> string \<Rightarrow> string \<Rightarrow> unit db" where
  "deleteAction w aid usr st =
     (if db_fails w (DeleteAction aid) then (Inl (db_error (DeleteAction aid)), st)
      else (Inr (),
            st\<lparr> st_actions := filter (\<lambda>x. \<not> (action_id x = aid \<and> user x = usr)) (st_actions st),
                st_journal := st_journal st @ [DeleteAction aid] \<rparr>))"

text \<open>Sequencing of calls that may throw: the first error ends the sequence.\<close>

definition and_then :: "'a db \<Rightarrow> ('a \<Rightarrow> 'b db) \<Rightarrow> 'b db" where
  "and_then m f st = (case m st of (Inl e, st') \<Rightarrow> (Inl e, st') | (Inr x, st') \<Rightarrow> f x st')"

definition lift :: "error + 'a \<Rightarrow> 'a db" where
  "lift r st = (r, st)"

section \<open>Encryption of action metadata (ActionService.js)\<close>

definition encryptSensitiveValue :: "world \<Rightarrow> json \<Rightarrow> error + string" where
  "encryptSensitiveValue w v = encryptV2 w (encodeURIComponent w (js_String v))"

text \<open>
  \<open>encryptMetadata\<close> reads the kind of authentication at \<open>metadata.auth.type\<close> and the
  secrets at the top level of the metadata. The constants \<open>AuthTypeEnum.ServiceHttp\<close> and
  \<open>AuthTypeEnum.OAuth\<close> of \<open>librechat-data-provider\<close> are the strings \<open>service_http\<close>
  and \<open>oauth\<close>, as the validation of the declarations and \<open>loadDefaultActionsFromConfig\<close>
  spell them.
\<close>

definition encrypt_field :: "world \<Rightarrow> jsobject \<Rightarrow> string \<Rightarrow> jsobject \<Rightarrow> error + jsobject" where
  "encrypt_field w md key encrypted =
     (if truthy (obj_get md key)
        then (case encryptSensitiveValue w (obj_get md key) of
                Inl e \<Rightarrow> Inl e
              | Inr c \<Rightarrow> Inr (obj_set encrypted key (JStr c)))
      else Inr encrypted)"

definition encryptMetadata :: "world \<Rightarrow> jsobject \<Rightarrow> error + jsobject" where
  "encryptMetadata w md =
     (let encryptedMetadata = md
      in if truthy (obj_get md ''auth'') \<and> get_prop (obj_get md ''auth'') ''type'' = JStr ''service_http''
           then encrypt_field w md ''api_key'' encryptedMetadata
         else if truthy (obj_get md ''auth'') \<and> get_prop (obj_get md ''auth'') ''type'' = JStr ''oauth''
           then (case encrypt_field w md ''oauth_client_id'' encryptedMetadata of
                   Inl e \<Rightarrow> Inl e
                 | Inr encrypted1 \<Rightarrow> encrypt_field w md ''oauth_client_secret'' encrypted1)
         else Inr encryptedMetadata)"

section \<open>Icon files (processIconFile.js)\<close>

definition isImageFile :: "string \<Rightarrow> bool" where
  "isImageFile filePath =
     (toLowerCase (path_extname filePath)
        \<in> set [''.png'', ''.jpg'', ''.jpeg'', ''.gif'', ''.webp'', ''.svg''])"

definition processIconFile :: "world \<Rightarrow> string \<Rightarrow> string \<Rightarrow> nat \<Rightarrow> error + avatar" where
  "processIconFile w iconPath aid fresh =
     (let resolvedPath = resolveConfigFilePath (w_host w) iconPath;
          outcome =
            (if \<not> fs_access (w_host w) resolvedPath
               then Inl (Error (''Icon file not found: '' @ resolvedPath))
             else if \<not> isImageFile resolvedPath
               then Inl (Error (''Invalid icon file format: '' @ path_extname resolvedPath
                                @ ''. Must be an image file.''))
             else upload_avatar w aid resolvedPath fresh)
      in case outcome of
           Inl e \<Rightarrow> Inl (Error (''Failed to process icon file '' @ iconPath @ '': '' @ message e))
         | Inr a \<Rightarrow> Inr a)"

section \<open>Synchronisation (sync.js)\<close>

definition getDefaultObjectId :: "world \<Rightarrow> string" where
  "getDefaultObjectId w =
     (if truthy_str (DEFAULT_OBJECT_ID w) then tmpl (DEFAULT_OBJECT_ID w)
      else ''000000000000000000000000'')"

text \<open>The value of an optional string when it is truthy.\<close>

definition present :: "string option \<Rightarrow> string option" where
  "present s = (if truthy_str s then s else None)"

definition load_instructions :: "world \<Rightarrow> agentConfig \<Rightarrow> error + string option" where
  "load_instructions w agentConfig =
     (case present (instructionsFile agentConfig) of
        Some file \<Rightarrow>
          (case loadConfigFile (w_host w) file ''text'' of
             Inl e \<Rightarrow> Inl e
           | Inr (Buffer b) \<Rightarrow> Inl (Error (''Invalid instructions: '' @ ''Instructions must be a string''))
           | Inr (Value v) \<Rightarrow>
               (case validateInstructions v of
                  Inl e \<Rightarrow> Inl (Error (''Invalid instructions: '' @ message e))
                | Inr _ \<Rightarrow> Inr (Some (js_String v))))
      | None \<Rightarrow>
          (case present (instructions agentConfig) of
             Some inline \<Rightarrow>
               (case validateInstructions (JStr inline) of
                  Inl e \<Rightarrow> Inl (Error (''Invalid inline instructions: '' @ message e))
                | Inr _ \<Rightarrow> Inr (Some inline))
           | None \<Rightarrow> Inr None))"

definition load_avatar :: "world \<Rightarrow> agentConfig \<Rightarrow> avatar option db" where
  "load_avatar w agentConfig st =
     (case present (iconFile agentConfig) of
        Some file \<Rightarrow>
          (case processIconFile w file (tmpl (agentId agentConfig)) (st_uuid st) of
             Inl e \<Rightarrow> (Inl e, st\<lparr> st_uuid := Suc (st_uuid st) \<rparr>)
           | Inr a \<Rightarrow> (Inr (Some a), st\<lparr> st_uuid := Suc (st_uuid st) \<rparr>))
      | None \<Rightarrow>
          (case present (icon agentConfig) of
             Some inline \<Rightarrow> (Inr (Some \<lparr> filepath = inline, source = ''inline'' \<rparr>), st)
           | None \<Rightarrow> (Inr None, st)))"

definition loadAgentFileContent :: "world \<Rightarrow> agentConfig \<Rightarrow> (string option \<times> avatar option) db" where
  "loadAgentFileContent w agentConfig =
     and_then (lift (load_instructions w agentConfig)) (\<lambda>instrs.
     and_then (load_avatar w agentConfig) (\<lambda>av.
     lift (Inr (instrs, av))))"

definition loadActionSpec :: "world \<Rightarrow> actionConfig \<Rightarrow> error + json" where
  "loadActionSpec w actionConfig =
     (case present (specFile actionConfig) of
        Some file \<Rightarrow>
          (case loadConfigFile (w_host w) file ''auto'' of
             Inl e \<Rightarrow> Inl e
           | Inr c \<Rightarrow>
               (let text = (case c of
                              Buffer b \<Rightarrow> JStr (JSON_stringify (w_hashing w) (JStr b))
                            | Value v \<Rightarrow> if is_object v then JStr (JSON_stringify (w_hashing w) v) else v)
                in case validateActionSpec (w_host w) text of
                     Inl e \<Rightarrow> Inl (Error (''Invalid action spec: '' @ message e))
                   | Inr _ \<Rightarrow> Inr text))
      | None \<Rightarrow>
          (case present (spec actionConfig) of
             Some inline \<Rightarrow>
               (case validateActionSpec (w_host w) (JStr inline) of
                  Inl e \<Rightarrow> Inl (Error (''Invalid inline action spec: '' @ message e))
                | Inr _ \<Rightarrow> Inr (JStr inline))
           | None \<Rightarrow>
               Inl (Error (''Action '' @ tmpl (domain actionConfig)
                           @ '' must have either spec or specFile''))))"

text \<open>The metadata that \<open>syncActions\<close> prepares for one action, before encryption.\<close>

definition action_metadata :: "actionConfig \<Rightarrow> json \<Rightarrow> jsobject" where
  "action_metadata actionConfig raw =
     (let md0 = [(''domain'', ostr (domain actionConfig)), (''raw_spec'', raw)];
          md1 = (if truthy_str (privacy_policy_url actionConfig)
                   then obj_set md0 ''privacy_policy_url'' (ostr (privacy_policy_url actionConfig))
                 else md0)
      in case auth actionConfig of
           Some a \<Rightarrow> object_assign md1 a
         | None \<Rightarrow> md1)"

text \<open>One turn of the loop of \<open>syncActions\<close>.\<close>

definition syncAction :: "world \<Rightarrow> string \<Rightarrow> string \<Rightarrow> actionConfig \<Rightarrow> actionRecord db" where
  "syncAction w aid defaultObjectId actionConfig =
     and_then (lift (loadActionSpec w actionConfig)) (\<lambda>raw.
       let actionId = generateActionId (tmpl (domain actionConfig)) aid
       in and_then (lift (encryptMetadata w (action_metadata actionConfig raw))) (\<lambda>encryptedMetadata.
            updateAction w actionId defaultObjectId
              \<lparr> action_id = actionId, user = defaultObjectId, agent_id = aid,
                action_type = ''action_prototype'', metadata = encryptedMetadata \<rparr>))"

fun syncActions_loop ::
  "world \<Rightarrow> string \<Rightarrow> string \<Rightarrow> actionConfig list \<Rightarrow> actionRecord list \<Rightarrow> actionRecord list db" where
  "syncActions_loop w aid defaultObjectId [] syncedActions st = (Inr syncedActions, st)"
| "syncActions_loop w aid defaultObjectId (actionConfig # rest) syncedActions st =
     (case syncAction w aid defaultObjectId actionConfig st of
        (Inl e, st') \<Rightarrow> (Inl e, st')
      | (Inr action, st') \<Rightarrow>
          syncActions_loop w aid defaultObjectId rest (syncedActions @ [action]) st')"

definition syncActions ::
  "world \<Rightarrow> string \<Rightarrow> actionConfig list option \<Rightarrow> string \<Rightarrow> actionRecord list db" where
  "syncActions w aid actionsConfig defaultObjectId =
     (case actionsConfig of
        None \<Rightarrow> lift (Inr [])
      | Some [] \<Rightarrow> lift (Inr [])
      | Some acts \<Rightarrow> syncActions_loop w aid defaultObjectId acts [])"

definition agentData_of :: "agentConfig \<Rightarrow> string option \<Rightarrow> avatar option \<Rightarrow> agentData" where
  "agentData_of agentConfig instrs av =
     \<lparr> d_name = name agentConfig,
       d_description = description agentConfig,
       d_instructions = instrs,
       d_avatar = av,
       d_provider = provider agentConfig,
       d_model = model agentConfig,
       d_category = (case present (category agentConfig) of Some c \<Rightarrow> c | None \<Rightarrow> ''general''),
       d_model_parameters = model_parameters agentConfig,
       d_recursion_limit = recursion_limit agentConfig,
       d_tools = (case tools agentConfig of Some ts \<Rightarrow> ts | None \<Rightarrow> []),
       d_tool_resources = tool_resources agentConfig \<rparr>"

definition createDefaultAgent ::
  "world \<Rightarrow> agentConfig \<Rightarrow> string option \<Rightarrow> avatar option \<Rightarrow> string \<Rightarrow> agentRecord db" where
  "createDefaultAgent w agentConfig instrs av defaultObjectId =
     and_then (lift (calculateAgentConfigHash (w_hashing w) agentConfig instrs av)) (\<lambda>configHash.
       createAgent w (tmpl (agentId agentConfig)) defaultObjectId
         (agentData_of agentConfig instrs av) configHash)"

definition null_agent :: error where
  "null_agent = Error ''Cannot read properties of null (reading 'id')''"

definition updateDefaultAgent ::
  "world \<Rightarrow> agentRecord \<Rightarrow> agentConfig \<Rightarrow> string option \<Rightarrow> avatar option \<Rightarrow> string \<Rightarrow> agentRecord db" where
  "updateDefaultAgent w existingAgent agentConfig instrs av defaultObjectId =
     and_then (lift (calculateAgentConfigHash (w_hashing w) agentConfig instrs av)) (\<lambda>configHash.
     and_then (updateAgent w (rec_id existingAgent)
                 \<lparr> upd_data = Some (agentData_of agentConfig instrs av),
                   upd_version_hash = Some configHash, upd_actions = None \<rparr>) (\<lambda>updatedAgent.
       case updatedAgent of
         None \<Rightarrow> lift (Inl null_agent)
       | Some r \<Rightarrow> lift (Inr r)))"

text \<open>\<open>existingAgent.versions?.[length - 1]?.version_metadata?.configHash\<close>\<close>

definition last_hash :: "agentRecord \<Rightarrow> string option" where
  "last_hash r = (case rec_versions r of [] \<Rightarrow> None | vs \<Rightarrow> last vs)"

definition reconcile_record ::
  "world \<Rightarrow> agentConfig \<Rightarrow> string option \<Rightarrow> avatar option \<Rightarrow> string \<Rightarrow> string
     \<Rightarrow> agentRecord option \<Rightarrow> agentRecord db" where
  "reconcile_record w agentConfig instrs av defaultObjectId newConfigHash existingAgent =
     (case existingAgent of
        Some existing \<Rightarrow>
          (if truthy_str (last_hash existing) \<and> hashesEqual (tmpl (last_hash existing)) newConfigHash
             then lift (Inr existing)
           else updateDefaultAgent w existing agentConfig instrs av defaultObjectId)
      | None \<Rightarrow> createDefaultAgent w agentConfig instrs av defaultObjectId)"

definition attach_actions :: "world \<Rightarrow> agentRecord \<Rightarrow> actionRecord list \<Rightarrow> agentRecord db" where
  "attach_actions w agent acts =
     (if length acts > 0
        then and_then (updateAgent w (rec_id agent)
                         \<lparr> upd_data = None, upd_version_hash = None,
                           upd_actions = Some (map action_id acts) \<rparr>) (\<lambda>updated.
               case updated of
                 None \<Rightarrow> lift (Inl null_agent)
               | Some r \<Rightarrow> lift (Inr r))
      else lift (Inr agent))"

definition syncAgent :: "world \<Rightarrow> agentConfig \<Rightarrow> string \<Rightarrow> agentRecord db" where
  "syncAgent w agentConfig defaultObjectId =
     (let validation = validateAgentConfig agentConfig
      in if validation \<noteq> []
           then lift (Inl (Error (''Invalid agent configuration: '' @ join_with '', '' validation)))
         else
           and_then (loadAgentFileContent w agentConfig) (\<lambda>(instrs, av).
           and_then (lift (calculateAgentConfigHash (w_hashing w) agentConfig instrs av)) (\<lambda>newConfigHash.
           and_then (getAgent w (tmpl (agentId agentConfig)) defaultObjectId) (\<lambda>existingAgent.
           and_then (reconcile_record w agentConfig instrs av defaultObjectId newConfigHash existingAgent)
             (\<lambda>agent.
           and_then (syncActions w (tmpl (agentId agentConfig)) (actions agentConfig) defaultObjectId)
             (\<lambda>acts.
           attach_actions w agent acts))))))"

subsection \<open>Cleanup\<close>

fun delete_actions :: "world \<Rightarrow> string \<Rightarrow> string list \<Rightarrow> unit db" where
  "delete_actions w defaultObjectId [] st = (Inr (), st)"
| "delete_actions w defaultObjectId (actionId # rest) st =
     (case deleteAction w actionId defaultObjectId st of
        (Inl e, st') \<Rightarrow> (Inl e, st')
      | (Inr _, st') \<Rightarrow> delete_actions w defaultObjectId rest st')"

text \<open>The body of the \<open>try\<close> for one removed agent: its actions first, then the agent.\<close>

definition remove_agent :: "world \<Rightarrow> string \<Rightarrow> agentRecord \<Rightarrow> unit db" where
  "remove_agent w defaultObjectId agent =
     and_then (delete_actions w defaultObjectId (rec_actions agent)) (\<lambda>_.
       deleteAgent w (rec_id agent) defaultObjectId)"

text \<open>The loop over the removed agents: an error is logged and the loop goes on.\<close>

fun remove_loop :: "world \<Rightarrow> string \<Rightarrow> agentRecord list \<Rightarrow> store \<Rightarrow> store" where
  "remove_loop w defaultObjectId [] st = st"
| "remove_loop w defaultObjectId (agent # rest) st =
     remove_loop w defaultObjectId rest (snd (remove_agent w defaultObjectId agent st))"

definition cleanupRemovedAgents :: "world \<Rightarrow> string option list \<Rightarrow> string \<Rightarrow> nat db" where
  "cleanupRemovedAgents w configuredAgentIds defaultObjectId =
     and_then (findAgents w defaultObjectId) (\<lambda>allDefaultAgents st.
       let removedAgents = filter (\<lambda>agent. Some (rec_id agent) \<notin> set configuredAgentIds) allDefaultAgents
       in if length removedAgents = 0 then (Inr 0, st)
          else (Inr (length removedAgents), remove_loop w defaultObjectId removedAgents st))"

subsection \<open>The main function\<close>

record syncError =
  err_agentId :: "string option"
  err_agentName :: "string option"
  err_type :: "string option"
  err_message :: string

record results =
  success :: bool
  syncedCount :: nat
  removedCount :: nat
  errors :: "syncError list"

fun sync_loop :: "world \<Rightarrow> string \<Rightarrow> agentConfig list \<Rightarrow> results \<Rightarrow> store \<Rightarrow> results \<times> store" where
  "sync_loop w defaultObjectId [] res st = (res, st)"
| "sync_loop w defaultObjectId (agentConfig # rest) res st =
     (case syncAgent w agentConfig defaultObjectId st of
        (Inr agent, st') \<Rightarrow>
          sync_loop w defaultObjectId rest (res\<lparr> syncedCount := syncedCount res + 1 \<rparr>) st'
      | (Inl e, st') \<Rightarrow>
          sync_loop w defaultObjectId rest
            (res\<lparr> errors := errors res
                     @ [\<lparr> err_agentId = agentId agentConfig, err_agentName = name agentConfig,
                          err_type = None, err_message = message e \<rparr>],
                  success := False \<rparr>) st')"

definition syncDefaultAgents :: "world \<Rightarrow> agentConfig list option \<Rightarrow> store \<Rightarrow> results \<times> store" where
  "syncDefaultAgents w defaultAgents st =
     (let defaultObjectId = getDefaultObjectId w;
          res0 = \<lparr> success = True, syncedCount = 0, removedCount = 0, errors = [] \<rparr>
      in case defaultAgents of
           None \<Rightarrow> (res0, st)
         | Some [] \<Rightarrow> (res0, st)
         | Some agents \<Rightarrow>
             (case sync_loop w defaultObjectId agents res0 st of
                (res, st1) \<Rightarrow>
                  (case cleanupRemovedAgents w (map agentId agents) defaultObjectId st1 of
                     (Inr removed, st2) \<Rightarrow> (res\<lparr> removedCount := removed \<rparr>, st2)
                   | (Inl e, st2) \<Rightarrow>
                       (res\<lparr> success := False,
                             errors := errors res
                               @ [\<lparr> err_agentId = None, err_agentName = None,
                                    err_type = Some ''sync_failure'', err_message = message e \<rparr>] \<rparr>,
                        st2))))"

section \<open>The outcome of a run, agent by agent\<close>

text \<open>
  The outcome of each declared agent, in the order given: each reconciliation starts from
  the store that the previous one left, whether the previous one succeeded or threw.
\<close>

fun attempts :: "world \<Rightarrow> string \<Rightarrow> agentConfig list \<Rightarrow> store \<Rightarrow> (error + agentRecord) list" where
  "attempts w defaultObjectId [] st = []"
| "attempts w defaultObjectId (agentConfig # rest) st =
     fst (syncAgent w agentConfig defaultObjectId st)
       # attempts w defaultObjectId rest (snd (syncAgent w agentConfig defaultObjectId st))"

fun store_after :: "world \<Rightarrow> string \<Rightarrow> agentConfig list \<Rightarrow> store \<Rightarrow> store" where
  "store_after w defaultObjectId [] st = st"
| "store_after w defaultObjectId (agentConfig # rest) st =
     store_after w defaultObjectId rest (snd (syncAgent w agentConfig defaultObjectId st))"

text \<open>The entry that the error of an agent leaves in the result.\<close>

definition error_entry :: "agentConfig \<Rightarrow> error \<Rightarrow> syncError" where
  "error_entry agentConfig e =
     \<lparr> err_agentId = agentId agentConfig, err_agentName = name agentConfig,
       err_type = None, err_message = message e \<rparr>"

fun entries_of :: "agentConfig list \<Rightarrow> (error + agentRecord) list \<Rightarrow> syncError list" where
  "entries_of (agentConfig # rest) (Inl e # outcomes) = error_entry agentConfig e # entries_of rest outcomes"
| "entries_of (agentConfig # rest) (Inr agent # outcomes) = entries_of rest outcomes"
| "entries_of [] outcomes = []"
| "entries_of agents [] = []"

text \<open>The entries of a result that come from agents (the others report the run itself).\<close>

definition agent_entries :: "results \<Rightarrow> syncError list" where
  "agent_entries res = filter (\<lambda>e. err_type e = None) (errors res)"

definition succeeded :: "(error + agentRecord) list \<Rightarrow> nat" where
  "succeeded outcomes = length (filter (\<lambda>r. \<not> isl r) outcomes)"

section \<open>Repeated runs\<close>

text \<open>
  For an agent that declares no icon file, the part of \<open>syncAgent\<close> that precedes the
  store is a function of the declaration alone (\<open>prepare\<close>: validation, instructions,
  hash).
\<close>

definition iconless :: "agentConfig \<Rightarrow> bool" where
  "iconless agentConfig = (\<not> truthy_str (iconFile agentConfig))"

definition declared_actions :: "agentConfig \<Rightarrow> actionConfig list" where
  "declared_actions agentConfig = (case actions agentConfig of None \<Rightarrow> [] | Some acts \<Rightarrow> acts)"

definition inline_avatar :: "agentConfig \<Rightarrow> avatar option" where
  "inline_avatar agentConfig =
     (case present (icon agentConfig) of
        Some inline \<Rightarrow> Some \<lparr> filepath = inline, source = ''inline'' \<rparr>
      | None \<Rightarrow> None)"

definition prepare :: "world \<Rightarrow> agentConfig \<Rightarrow> error + (string option \<times> avatar option \<times> string)" where
  "prepare w agentConfig =
     (if validateAgentConfig agentConfig \<noteq> []
        then Inl (Error (''Invalid agent configuration: ''
                         @ join_with '', '' (validateAgentConfig agentConfig)))
      else case load_instructions w agentConfig of
             Inl e \<Rightarrow> Inl e
           | Inr instrs \<Rightarrow>
               (case calculateAgentConfigHash (w_hashing w) agentConfig instrs (inline_avatar agentConfig) of
                  Inl e \<Rightarrow> Inl e
                | Inr h \<Rightarrow> Inr (instrs, inline_avatar agentConfig, h)))"

definition hash_matches :: "agentRecord \<Rightarrow> string \<Rightarrow> bool" where
  "hash_matches r h = (truthy_str (last_hash r) \<and> hashesEqual (tmpl (last_hash r)) h)"

text \<open>
  What \<open>syncActions\<close> returns for an agent does not depend on the store (it reads the
  declaration, the files and the failures of the database only): \<open>actions_outcome\<close> is
  its result, taken on the empty store. \<open>actions_ok\<close> says that the actions are
  reconciled and their list attached without an error, and \<open>with_actions\<close> is what the
  attachment makes of the stored record.
\<close>

definition actions_outcome :: "world \<Rightarrow> string \<Rightarrow> agentConfig \<Rightarrow> error + actionRecord list" where
  "actions_outcome w oid agentConfig =
     fst (syncActions w (tmpl (agentId agentConfig)) (actions agentConfig) oid
            \<lparr> st_agents = [], st_actions = [], st_journal = [], st_uuid = 0 \<rparr>)"

definition actions_ok :: "world \<Rightarrow> string \<Rightarrow> agentConfig \<Rightarrow> bool" where
  "actions_ok w oid agentConfig =
     (case actions_outcome w oid agentConfig of
        Inl e \<Rightarrow> False
      | Inr acts \<Rightarrow> acts = [] \<or> \<not> db_fails w (UpdateAgent (tmpl (agentId agentConfig))))"

definition with_actions :: "world \<Rightarrow> string \<Rightarrow> agentConfig \<Rightarrow> agentRecord \<Rightarrow> agentRecord" where
  "with_actions w oid agentConfig r =
     (case actions_outcome w oid agentConfig of
        Inl e \<Rightarrow> r
      | Inr acts \<Rightarrow>
          if acts \<noteq> [] \<and> \<not> db_fails w (UpdateAgent (tmpl (agentId agentConfig)))
            then r\<lparr> rec_actions := map action_id acts \<rparr>
          else r)"

text \<open>
  What follows \<open>prepare\<close> depends on the store through the record stored under the
  agent's id only: \<open>quiet_at\<close> says that the reconciliation leaves the stored agents
  as they are, \<open>ok_at\<close> that it succeeds.
\<close>

definition quiet_at :: "world \<Rightarrow> string \<Rightarrow> agentConfig \<Rightarrow> agentRecord option \<Rightarrow> bool" where
  "quiet_at w oid agentConfig stored =
     (case prepare w agentConfig of
        Inl e \<Rightarrow> True
      | Inr (instrs, av, h) \<Rightarrow>
          db_fails w (GetAgent (tmpl (agentId agentConfig)))
          \<or> (case stored of
                None \<Rightarrow> db_fails w (CreateAgent (tmpl (agentId agentConfig)))
              | Some r \<Rightarrow>
                  if hash_matches r h then with_actions w oid agentConfig r = r
                  else db_fails w (UpdateAgent (tmpl (agentId agentConfig)))))"

definition ok_at :: "world \<Rightarrow> string \<Rightarrow> agentConfig \<Rightarrow> agentRecord option \<Rightarrow> bool" where
  "ok_at w oid agentConfig stored =
     (case prepare w agentConfig of
        Inl e \<Rightarrow> False
      | Inr (instrs, av, h) \<Rightarrow>
          \<not> db_fails w (GetAgent (tmpl (agentId agentConfig)))
          \<and> (case stored of
                None \<Rightarrow> \<not> db_fails w (CreateAgent (tmpl (agentId agentConfig)))
              | Some r \<Rightarrow>
                  hash_matches r h \<or> \<not> db_fails w (UpdateAgent (tmpl (agentId agentConfig))))
          \<and> actions_ok w oid agentConfig)"

text \<open>The record stored under an id.\<close>

definition lookup :: "store \<Rightarrow> string \<Rightarrow> agentRecord option" where
  "lookup st i = find (\<lambda>r. rec_id r = i) (st_agents st)"

text \<open>No id of the list is held by a record of another owner.\<close>

definition owned :: "string \<Rightarrow> string option list \<Rightarrow> store \<Rightarrow> bool" where
  "owned oid ids st =
     (\<forall>r \<in> set (st_agents st). Some (rec_id r) \<in> set ids \<longrightarrow> rec_author r = oid)"

text \<open>The journal of the second store is that of the first, followed by writes of a kind.\<close>

definition grown :: "(dbOp \<Rightarrow> bool) \<Rightarrow> store \<Rightarrow> store \<Rightarrow> bool" where
  "grown allowed st st' =
     (\<exists>added. st_journal st' = st_journal st @ added \<and> list_all allowed added)"

text \<open>
  The writes of a run that finds every declared agent stored with the hash of its
  declaration: for an agent that declares at least one action, the upsert of each of its
  actions and the update that sets its action list; and the deletions of the cleanup.
\<close>

fun rerun_op :: "agentConfig list \<Rightarrow> dbOp \<Rightarrow> bool" where
  "rerun_op agents (UpdateAction x) =
     list_ex (\<lambda>a. list_ex (\<lambda>ac. x = generateActionId (tmpl (domain ac)) (tmpl (agentId a)))
                    (declared_actions a)) agents"
| "rerun_op agents (UpdateAgent i) =
     list_ex (\<lambda>a. agentId a = Some i \<and> declared_actions a \<noteq> []) agents"
| "rerun_op agents (DeleteAction x) = True"
| "rerun_op agents (DeleteAgent i) = True"
| "rerun_op agents (CreateAgent i) = False"
| "rerun_op agents (GetAgent i) = False"
| "rerun_op agents FindAgents = False"

fun is_delete :: "dbOp \<Rightarrow> bool" where
  "is_delete (DeleteAction x) = True"
| "is_delete (DeleteAgent i) = True"
| "is_delete op = False"

text \<open>
  What a cleanup may do to a store: remove agents, add deletions to the journal, keep the
  ids distinct and leave the records of the declared ids alone.
\<close>

definition cleaned :: "string option list \<Rightarrow> store \<Rightarrow> store \<Rightarrow> bool" where
  "cleaned ids st st' =
     (set (st_agents st') \<subseteq> set (st_agents st)
      \<and> grown is_delete st st'
      \<and> (distinct (map rec_id (st_agents st)) \<longrightarrow> distinct (map rec_id (st_agents st')))
      \<and> (\<forall>j. Some j \<in> set ids \<longrightarrow> lookup st' j = lookup st j))"


text \<open>
  The upsert of an action record for a user, as \<open>updateAction\<close> performs it; the
  records that \<open>syncActions\<close> upserts for an agent, up to the first action that fails
  (like its result, they do not depend on the store); and \<open>reaches_at\<close>, which says that
  the reconciliation gets as far as the actions.
\<close>

definition upsert :: "string \<Rightarrow> actionRecord \<Rightarrow> actionRecord list \<Rightarrow> actionRecord list" where
  "upsert usr x recs =
     (if \<exists>y \<in> set recs. action_id y = action_id x \<and> user y = usr
        then map (\<lambda>y. if action_id y = action_id x \<and> user y = usr then x else y) recs
      else recs @ [x])"

fun written_loop :: "world \<Rightarrow> string \<Rightarrow> string \<Rightarrow> actionConfig list \<Rightarrow> actionRecord list" where
  "written_loop w aid oid [] = []"
| "written_loop w aid oid (actionConfig # rest) =
     (case fst (syncAction w aid oid actionConfig
                  \<lparr> st_agents = [], st_actions = [], st_journal = [], st_uuid = 0 \<rparr>) of
        Inl e \<Rightarrow> []
      | Inr x \<Rightarrow> x # written_loop w aid oid rest)"

definition written :: "world \<Rightarrow> string \<Rightarrow> agentConfig \<Rightarrow> actionRecord list" where
  "written w oid agentConfig =
     written_loop w (tmpl (agentId agentConfig)) oid (declared_actions agentConfig)"

definition reaches_at :: "world \<Rightarrow> string \<Rightarrow> agentConfig \<Rightarrow> agentRecord option \<Rightarrow> bool" where
  "reaches_at w oid agentConfig stored =
     (case prepare w agentConfig of
        Inl e \<Rightarrow> False
      | Inr (instrs, av, h) \<Rightarrow>
          \<not> db_fails w (GetAgent (tmpl (agentId agentConfig)))
          \<and> (case stored of
                None \<Rightarrow> \<not> db_fails w (CreateAgent (tmpl (agentId agentConfig)))
              | Some r \<Rightarrow>
                  hash_matches r h \<or> \<not> db_fails w (UpdateAgent (tmpl (agentId agentConfig)))))"

text \<open>The records that a run upserts, by the stored records of the declared agents.\<close>

definition upserts :: "world \<Rightarrow> string \<Rightarrow> agentConfig list \<Rightarrow> store \<Rightarrow> actionRecord list" where
  "upserts w oid agents st =
     concat (map (\<lambda>a. if reaches_at w oid a (lookup st (tmpl (agentId a))) then written w oid a else [])
               agents)"

text \<open>
  The cleanup: the agents it lists for removal, the action ids it deletes for them (the
  deletions of an agent stop at the first that fails), and the agents it removes.
\<close>

definition orphans_of :: "string option list \<Rightarrow> string \<Rightarrow> store \<Rightarrow> agentRecord list" where
  "orphans_of ids oid st =
     filter (\<lambda>agent. Some (rec_id agent) \<notin> set ids) (filter (\<lambda>r. rec_author r = oid) (st_agents st))"

definition deleted_ids :: "world \<Rightarrow> agentRecord list \<Rightarrow> string list" where
  "deleted_ids w rs =
     concat (map (\<lambda>r. takeWhile (\<lambda>x. \<not> db_fails w (DeleteAction x)) (rec_actions r)) rs)"

definition removable :: "world \<Rightarrow> agentRecord \<Rightarrow> bool" where
  "removable w r =
     (list_all (\<lambda>x. \<not> db_fails w (DeleteAction x)) (rec_actions r)
      \<and> \<not> db_fails w (DeleteAgent (rec_id r)))"

text \<open>
  No stored agent of the system owner outside the declaration lists the id of a declared
  action.
\<close>

definition spares :: "string \<Rightarrow> agentConfig list \<Rightarrow> store \<Rightarrow> bool" where
  "spares oid agents st =
     (\<forall>r \<in> set (st_agents st).
        rec_author r = oid \<and> Some (rec_id r) \<notin> set (map agentId agents)
        \<longrightarrow> (\<forall>x \<in> set (rec_actions r). \<not> rerun_op agents (UpdateAction x)))"

text \<open>The last record of a list with the key of a record, if the record is of the user.\<close>

definition last_write :: "string \<Rightarrow> actionRecord list \<Rightarrow> actionRecord \<Rightarrow> actionRecord" where
  "last_write usr xs y =
     (if user y = usr
        then (case find (\<lambda>x. action_id x = action_id y) (rev xs) of Some x \<Rightarrow> x | None \<Rightarrow> y)
      else y)"


section \<open>Sample declarations\<close>

definition support_agent :: agentConfig where
  "support_agent =
     \<lparr> agentId = Some ''support'', name = Some ''Support'', description = None,
       instructions = Some ''Be kind.'', instructionsFile = None, icon = None, iconFile = None,
       provider = Some ''openai'', model = Some ''gpt-4o'', category = None,
       model_parameters = JObj [(''temperature'', JNum 1), (''stop'', JArr [JStr ''END''])],
       recursion_limit = Some 25, tools = Some [''web_search''],
       tool_resources = JObj [(''file_search'', JObj [(''b'', JNum 2), (''a'', JNum 1)])],
       actions = None \<rparr>"

text \<open>A minimal OpenAPI document, as JSON text (which is YAML too), and what it parses to.\<close>

definition openapi_text :: string where
  "openapi_text =
     ''{\"openapi\": \"3.0.0\", \"info\": {\"title\": \"Weather\"}, \"paths\": {}}''"

definition weather_action :: actionConfig where
  "weather_action =
     \<lparr> domain = Some ''api.weather.test'', spec = Some openapi_text, specFile = None,
       auth = Some [(''type'', JStr ''service_http''), (''api_key'', JStr ''sk-plain'')],
       privacy_policy_url = None \<rparr>"

definition openapi_doc :: json where
  "openapi_doc =
     JObj [(''openapi'', JStr ''3.0.0''), (''info'', JObj [(''title'', JStr ''Weather'')]),
           (''paths'', JObj [])]"

definition sample_host :: host where
  "sample_host =
     \<lparr> cwd = ''/srv/app'',
       CONFIG_PATH = Some ''/srv/app/librechat.yaml'',
       fs_access = (\<lambda>p. p = ''/etc/passwd'' \<or> p = ''/srv/app/agents/support.txt''
                          \<or> p = ''/srv/app/agents/support.png''),
       fs_readFile = (\<lambda>p. if p = ''/etc/passwd'' then Inr ''root:x:0:0''
                         else if p = ''/srv/app/agents/support.txt'' then Inr ''Be kind.''
                         else Inl (Error ''ENOENT'')),
       yaml_load = (\<lambda>s. if s = openapi_text then Inr openapi_doc else Inr (JStr s)),
       JSON_parse = (\<lambda>s. Inl (Error ''Unexpected token'')) \<rparr>"

text \<open>A plain serialiser and a transparent digest stand for the platform's in the samples.\<close>

fun sample_stringify :: "json \<Rightarrow> string" where
  "sample_stringify JUndefined = ''null''"
| "sample_stringify JNull = ''null''"
| "sample_stringify (JBool b) = (if b then ''true'' else ''false'')"
| "sample_stringify (JNum n) = show_int n"
| "sample_stringify (JStr s) = ''\"'' @ s @ ''\"''"
| "sample_stringify (JArr xs) = ''['' @ join_with '','' (map sample_stringify xs) @ '']''"
| "sample_stringify (JObj kvs) =
     ''{'' @ join_with '',''
              (map (\<lambda>p. ''\"'' @ fst p @ ''\":'' @ sample_stringify (snd p))
                 (filter (\<lambda>p. snd p \<noteq> JUndefined) kvs)) @ ''}''"

definition sample_world :: world where
  "sample_world =
     \<lparr> w_host = sample_host,
       w_hashing = \<lparr> JSON_stringify = sample_stringify, sha256_hex = (\<lambda>s. ''sha256:'' @ s) \<rparr>,
       DEFAULT_OBJECT_ID = None,
       encryptV2 = (\<lambda>s. Inr (''enc['' @ s @ '']'')),
       encodeURIComponent = (\<lambda>s. s),
       upload_avatar = (\<lambda>aid file fresh.
          Inr \<lparr> filepath = ''/avatars/agent-'' @ aid @ ''-'' @ show_nat fresh @ ''.png'',
                source = ''local'' \<rparr>),
       db_fails = (\<lambda>op. False) \<rparr>"

definition system_owner :: string where
  "system_owner = ''000000000000000000000000''"

definition empty_store :: store where
  "empty_store = \<lparr> st_agents = [], st_actions = [], st_journal = [], st_uuid = 0 \<rparr>"

definition agent_with_action :: agentConfig where
  "agent_with_action = support_agent\<lparr> actions := Some [weather_action] \<rparr>"

definition orphan_record :: agentRecord where
  "orphan_record =
     \<lparr> rec_id = ''retired'', rec_author = system_owner,
       rec_data = agentData_of support_agent (Some ''Old.'') None,
       rec_actions = [], rec_versions = [Some ''sha256:old''] \<rparr>"

definition store_with_orphan :: store where
  "store_with_orphan = empty_store\<lparr> st_agents := [orphan_record] \<rparr>"

definition delete_refused_world :: world where
  "delete_refused_world = sample_world\<lparr> db_fails := (\<lambda>op. op = DeleteAgent ''retired'') \<rparr>"

definition listing_refused_world :: world where
  "listing_refused_world = sample_world\<lparr> db_fails := (\<lambda>op. op = FindAgents) \<rparr>"

definition broken_agent :: agentConfig where
  "broken_agent = support_agent\<lparr> agentId := Some ''broken'', name := None \<rparr>"

definition sales_agent :: agentConfig where
  "sales_agent = support_agent\<lparr> agentId := Some ''sales'', name := Some ''Sales'' \<rparr>"

definition agent_with_icon :: agentConfig where
  "agent_with_icon = support_agent\<lparr> iconFile := Some ''agents/support.png'' \<rparr>"

text \<open>A second declaration of the id \<open>support\<close>, under another name.\<close>

definition helpdesk_agent :: agentConfig where
  "helpdesk_agent = support_agent\<lparr> name := Some ''Helpdesk'' \<rparr>"

text \<open>
  Two agents whose actions have the same identifier \<open>api_weather_test_support\<close>: the
  first is declared, then replaced by the second in the configuration.
\<close>

definition former_agent :: agentConfig where
  "former_agent =
     support_agent\<lparr> agentId := Some ''test_support'',
                    actions := Some [weather_action\<lparr> domain := Some ''api_weather'' \<rparr>] \<rparr>"

definition successor_agent :: agentConfig where
  "successor_agent =
     support_agent\<lparr> actions := Some [weather_action\<lparr> domain := Some ''api_weather_test'' \<rparr>] \<rparr>"

section \<open>Verified properties\<close>

subsection \<open>The hash does not depend on the order of keys\<close>

lemma same_content_sortObject:
  "same_content a b \<Longrightarrow> sortObject a = sortObject b"
proof (induction a b rule: same_content.induct)
  case (1 a w)
  then obtain b where w: "w = JObj b" by (cases w) auto
  from "1.prems" w have d: "distinct (map fst a)" "distinct (map fst b)"
    and s: "set (map fst a) = set (map fst b)"
    and v: "\<forall>k \<in> set (map fst a). same_content (obj_get a k) (obj_get b k)"
    by (simp_all del: set_map)
  have keys: "sort (object_keys a) = sort (object_keys b)"
    unfolding object_keys_def
    by (rule sorted_distinct_set_unique) (use d s in simp_all)
  have vals: "\<And>k. k \<in> set (sort (object_keys a)) \<Longrightarrow>
                 sortObject (obj_get a k) = sortObject (obj_get b k)"
    using "1.IH"[OF w] v by (simp add: object_keys_def)
  have "foldl (\<lambda>sorted key. obj_set sorted key (sortObject (obj_get a key))) []
          (sort (object_keys a))
      = foldl (\<lambda>sorted key. obj_set sorted key (sortObject (obj_get b key))) []
          (sort (object_keys a))"
    by (rule foldl_cong) (use vals in simp_all)
  with keys w show ?case by simp
next
  case (2 xs w)
  then obtain ys where w: "w = JArr ys" by (cases w) auto
  from "2.prems" w have l: "list_all2 same_content xs ys" by simp
  have "map sortObject xs = map sortObject ys"
    using l "2.IH"[OF w]
    by (induction xs ys rule: list_all2_induct) auto
  with w show ?case by simp
qed auto

lemma same_content_nullish:
  "same_content a b \<Longrightarrow> (a = JUndefined \<longleftrightarrow> b = JUndefined) \<and> (a = JNull \<longleftrightarrow> b = JNull)"
  by (cases a; cases b) auto

lemma same_content_calculateHash:
  assumes "same_content a b"
  shows "calculateHash h a = calculateHash h b"
proof -
  have "sortObject a = sortObject b"
    using assms by (rule same_content_sortObject)
  moreover have "(a = JUndefined \<longleftrightarrow> b = JUndefined) \<and> (a = JNull \<longleftrightarrow> b = JNull)"
    using assms by (rule same_content_nullish)
  ultimately show ?thesis
    by (cases a; cases b) (simp_all add: calculateHash_def)
qed

lemma sortObject_obj_cong:
  assumes "map fst a = map fst b"
    and "\<And>k. k \<in> set (map fst a) \<Longrightarrow> sortObject (obj_get a k) = sortObject (obj_get b k)"
  shows "sortObject (JObj a) = sortObject (JObj b)"
proof -
  have "\<And>k. k \<in> set (sort (object_keys a)) \<Longrightarrow>
          sortObject (obj_get a k) = sortObject (obj_get b k)"
    using assms(2) by (simp add: object_keys_def del: set_map)
  then have "foldl (\<lambda>sorted key. obj_set sorted key (sortObject (obj_get a key))) []
          (sort (object_keys a))
      = foldl (\<lambda>sorted key. obj_set sorted key (sortObject (obj_get b key))) []
          (sort (object_keys a))"
    by (intro foldl_cong) simp_all
  with assms(1) show ?thesis by (simp add: object_keys_def)
qed

lemma agent_hash_nested_reorder:
  assumes "same_content (model_parameters a) mp"
    and "same_content (tool_resources a) tr"
  shows "calculateAgentConfigHash h (a\<lparr>model_parameters := mp, tool_resources := tr\<rparr>) i av
       = calculateAgentConfigHash h a i av"
proof -
  have mp: "sortObject mp = sortObject (model_parameters a)"
    using assms(1) by (simp add: same_content_sortObject)
  have tr: "sortObject tr = sortObject (tool_resources a)"
    using assms(2) by (simp add: same_content_sortObject)
  have eq: "sortObject (JObj
       [(''id'', ostr (agentId a)), (''name'', ostr (name a)),
        (''description'', ostr (description a)),
        (''instructions'', ostr (or_str i (instructions a))),
        (''provider'', ostr (provider a)), (''model'', ostr (model a)),
        (''category'', ostr (category a)), (''model_parameters'', mp),
        (''recursion_limit'', onum (recursion_limit a)),
        (''tools'', ostrs (tools a)), (''tool_resources'', tr),
        (''avatar_filepath'', ostr (or_str (avatar_filepath av) (icon a)))])
     = sortObject (JObj
       [(''id'', ostr (agentId a)), (''name'', ostr (name a)),
        (''description'', ostr (description a)),
        (''instructions'', ostr (or_str i (instructions a))),
        (''provider'', ostr (provider a)), (''model'', ostr (model a)),
        (''category'', ostr (category a)), (''model_parameters'', model_parameters a),
        (''recursion_limit'', onum (recursion_limit a)),
        (''tools'', ostrs (tools a)), (''tool_resources'', tool_resources a),
        (''avatar_filepath'', ostr (or_str (avatar_filepath av) (icon a)))])"
  proof (rule sortObject_obj_cong)
    fix k
    assume "k \<in> set (map fst
       [(''id'', ostr (agentId a)), (''name'', ostr (name a)),
        (''description'', ostr (description a)),
        (''instructions'', ostr (or_str i (instructions a))),
        (''provider'', ostr (provider a)), (''model'', ostr (model a)),
        (''category'', ostr (category a)), (''model_parameters'', mp),
        (''recursion_limit'', onum (recursion_limit a)),
        (''tools'', ostrs (tools a)), (''tool_resources'', tr),
        (''avatar_filepath'', ostr (or_str (avatar_filepath av) (icon a)))])"
    then show "sortObject (obj_get
       [(''id'', ostr (agentId a)), (''name'', ostr (name a)),
        (''description'', ostr (description a)),
        (''instructions'', ostr (or_str i (instructions a))),
        (''provider'', ostr (provider a)), (''model'', ostr (model a)),
        (''category'', ostr (category a)), (''model_parameters'', mp),
        (''recursion_limit'', onum (recursion_limit a)),
        (''tools'', ostrs (tools a)), (''tool_resources'', tr),
        (''avatar_filepath'', ostr (or_str (avatar_filepath av) (icon a)))] k)
      = sortObject (obj_get
       [(''id'', ostr (agentId a)), (''name'', ostr (name a)),
        (''description'', ostr (description a)),
        (''instructions'', ostr (or_str i (instructions a))),
        (''provider'', ostr (provider a)), (''model'', ostr (model a)),
        (''category'', ostr (category a)), (''model_parameters'', model_parameters a),
        (''recursion_limit'', onum (recursion_limit a)),
        (''tools'', ostrs (tools a)), (''tool_resources'', tool_resources a),
        (''avatar_filepath'', ostr (or_str (avatar_filepath av) (icon a)))] k)"
      by (auto simp add: obj_get_def mp tr)
  qed simp
  show ?thesis
    unfolding calculateAgentConfigHash_def calculateHash_def Let_def
    by (simp del: sortObject.simps add: eq)
qed

text \<open>
  C6. Two values that differ only in the order in which their objects list their keys, at
  any depth, have the same hash; and an agent declaration whose nested maps
  (\<open>model_parameters\<close>, \<open>tool_resources\<close>) are listed in another key order has the same
  agent config hash. Arrays are compared in order and scalars by equality.
\<close>

theorem config_hash_key_order_invariant:
  assumes "same_content d d'"
    and "same_content (model_parameters a) mp"
    and "same_content (tool_resources a) tr"
  shows "calculateHash h d = calculateHash h d'
       \<and> calculateAgentConfigHash h (a\<lparr>model_parameters := mp, tool_resources := tr\<rparr>) i av
         = calculateAgentConfigHash h a i av"
  using assms by (simp add: same_content_calculateHash agent_hash_nested_reorder)

theorem config_hash_key_order_invariant_witness:
  "same_content (JObj [(''b'', JNum 1), (''a'', JArr [JObj [(''y'', JNull), (''x'', JStr ''s'')]])])
                (JObj [(''a'', JArr [JObj [(''x'', JStr ''s''), (''y'', JNull)]]), (''b'', JNum 1)])
   \<and> same_content (model_parameters support_agent)
                  (JObj [(''stop'', JArr [JStr ''END'']), (''temperature'', JNum 1)])
   \<and> same_content (tool_resources support_agent)
                  (JObj [(''file_search'', JObj [(''a'', JNum 1), (''b'', JNum 2)])])
   \<and> (\<forall>h i av.
         calculateHash h (JObj [(''b'', JNum 1), (''a'', JArr [JObj [(''y'', JNull), (''x'', JStr ''s'')]])])
           = calculateHash h (JObj [(''a'', JArr [JObj [(''x'', JStr ''s''), (''y'', JNull)]]), (''b'', JNum 1)])
         \<and> calculateAgentConfigHash h
               (support_agent\<lparr>model_parameters := JObj [(''stop'', JArr [JStr ''END'']), (''temperature'', JNum 1)],
                               tool_resources := JObj [(''file_search'', JObj [(''a'', JNum 1), (''b'', JNum 2)])]\<rparr>) i av
           = calculateAgentConfigHash h support_agent i av)"
proof -
  have h1: "same_content (JObj [(''b'', JNum 1), (''a'', JArr [JObj [(''y'', JNull), (''x'', JStr ''s'')]])])
                (JObj [(''a'', JArr [JObj [(''x'', JStr ''s''), (''y'', JNull)]]), (''b'', JNum 1)])"
    by (simp add: obj_get_def insert_commute)
  have h2: "same_content (model_parameters support_agent)
                  (JObj [(''stop'', JArr [JStr ''END'']), (''temperature'', JNum 1)])"
    by (simp add: support_agent_def obj_get_def insert_commute)
  have h3: "same_content (tool_resources support_agent)
                  (JObj [(''file_search'', JObj [(''a'', JNum 1), (''b'', JNum 2)])])"
    by (simp add: support_agent_def obj_get_def insert_commute)
  show ?thesis
    using h1 h2 h3 config_hash_key_order_invariant [OF h1 h2 h3] by blast
qed

subsection \<open>The agent hash does not read the actions\<close>

text \<open>
  C7. The agent config hash is a function of the fields \<open>id\<close>, \<open>name\<close>, \<open>description\<close>,
  \<open>instructions\<close>, \<open>provider\<close>, \<open>model\<close>, \<open>category\<close>, \<open>model_parameters\<close>,
  \<open>recursion_limit\<close>, \<open>tools\<close>, \<open>tool_resources\<close> and the avatar path (with \<open>icon\<close> as its
  fallback) only: two declarations that agree on them, with the same resolved instructions
  and avatar, have the same hash, whatever their actions are.
\<close>

theorem agent_hash_ignores_actions:
  assumes "agentId a = agentId b" and "name a = name b" and "description a = description b"
    and "instructions a = instructions b" and "provider a = provider b" and "model a = model b"
    and "category a = category b" and "model_parameters a = model_parameters b"
    and "recursion_limit a = recursion_limit b" and "tools a = tools b"
    and "tool_resources a = tool_resources b" and "icon a = icon b"
  shows "calculateAgentConfigHash h a i av = calculateAgentConfigHash h b i av"
  using assms by (simp add: calculateAgentConfigHash_def)

theorem agent_hash_ignores_actions_witness:
  "actions support_agent \<noteq> actions (support_agent\<lparr>actions := Some [weather_action]\<rparr>)
   \<and> (\<forall>h i av. calculateAgentConfigHash h support_agent i av
        = calculateAgentConfigHash h (support_agent\<lparr>actions := Some [weather_action]\<rparr>) i av)"
  using agent_hash_ignores_actions
          [of support_agent "support_agent\<lparr>actions := Some [weather_action]\<rparr>"]
  by (simp add: support_agent_def)

subsection \<open>The traversal check of the file loader\<close>

lemma isAbsolute_path_resolve: "isAbsolute (path_resolve wd ps)"
proof -
  have "\<And>segs. isAbsolute (join_absolute segs)"
  proof -
    fix segs :: "string list"
    show "isAbsolute (join_absolute segs)"
      by (cases segs) (simp_all add: join_absolute_def isAbsolute_def)
  qed
  then show ?thesis by (simp add: path_resolve_def)
qed

lemma isAbsolute_resolveConfigFilePath: "isAbsolute (resolveConfigFilePath hst filePath)"
  by (simp add: resolveConfigFilePath_def isAbsolute_path_resolve)

text \<open>
  \<open>loadConfigFile\<close> hands the resolved path to \<open>validateFilePath\<close>; that path is always
  absolute, so the check returns at its first test and no path is ever refused.
\<close>

lemma validateFilePath_resolved:
  "validateFilePath hst (resolveConfigFilePath hst filePath) baseDir = Inr ()"
  by (simp add: validateFilePath_def isAbsolute_resolveConfigFilePath)

lemma loadConfigFile_body_unchecked:
  "loadConfigFile_body hst filePath fileType =
     (let resolvedPath = resolveConfigFilePath hst filePath
      in if \<not> fs_access hst resolvedPath
           then Inl (Error (''File not found: '' @ resolvedPath))
         else readContent hst resolvedPath (detectType fileType resolvedPath))"
  by (simp add: loadConfigFile_body_def validateFilePath_resolved Let_def)

text \<open>
  C4. The claim asks that a relative path resolving outside the base directory be refused
  with a path traversal error. At the relative path \<open>../../etc/passwd\<close>, with the
  configuration in \<open>/srv/app\<close>, the loader resolves to \<open>/etc/passwd\<close>, which is not below
  the base directory, and returns the content of that file.
\<close>

theorem relative_path_escapes_base_unchecked:
  "\<not> isAbsolute ''../../etc/passwd''
   \<and> configDir sample_host = ''/srv/app''
   \<and> resolveConfigFilePath sample_host ''../../etc/passwd'' = ''/etc/passwd''
   \<and> \<not> descendant ''/etc/passwd'' (configDir sample_host)
   \<and> loadConfigFile sample_host ''../../etc/passwd'' ''text'' = Inr (Value (JStr ''root:x:0:0''))"
  by code_simp

subsection \<open>Sequencing\<close>

lemma and_then_Inr:
  assumes "and_then m f st = (Inr y, st')"
  obtains x st1 where "m st = (Inr x, st1)" and "f x st1 = (Inr y, st')"
  using assms by (auto simp: and_then_def split: prod.splits sum.splits)

lemma lift_eq [simp]: "lift r st = (r, st)"
  by (simp add: lift_def)

subsection \<open>Secrets of a declared action\<close>

lemma map_of_replace_other:
  "k' \<noteq> k \<Longrightarrow> map_of (map (\<lambda>p. if fst p = k then (k, v) else p) kvs) k' = map_of kvs k'"
  by (induction kvs) auto

lemma map_of_replace_same:
  "k \<in> set (map fst kvs) \<Longrightarrow> map_of (map (\<lambda>p. if fst p = k then (k, v) else p) kvs) k = Some v"
  by (induction kvs) auto

lemma map_of_obj_set:
  "map_of (obj_set kvs k v) k' = (if k' = k then Some v else map_of kvs k')"
proof (cases "k \<in> set (map fst kvs)")
  case True
  have "map_of (map (\<lambda>p. if fst p = k then (k, v) else p) kvs) k'
          = (if k' = k then Some v else map_of kvs k')"
    using True by (simp add: map_of_replace_other map_of_replace_same del: set_map)
  with True show ?thesis by (simp add: obj_set_def del: set_map)
next
  case False
  then have nk: "map_of kvs k = None"
    by (simp add: map_of_eq_None_iff)
  have nt: "map_of (takeWhile (precedes_index k) kvs) k = None"
    using False by (auto simp: map_of_eq_None_iff dest: set_takeWhileD)
  have split: "map_of kvs k' = (case map_of (takeWhile (precedes_index k) kvs) k' of
                                   None \<Rightarrow> map_of (dropWhile (precedes_index k) kvs) k'
                                 | Some x \<Rightarrow> Some x)"
    using map_of_append[of "takeWhile (precedes_index k) kvs" "dropWhile (precedes_index k) kvs"]
    by (simp add: map_add_def split: option.splits)
  show ?thesis
  proof (cases "is_array_index k")
    case True
    have "map_of (takeWhile (precedes_index k) kvs @ [(k, v)] @ dropWhile (precedes_index k) kvs) k'
            = (if k' = k then Some v else map_of kvs k')"
      using nt split
      by (auto simp: map_add_def split: option.splits)
    with False True show ?thesis by (simp add: obj_set_def del: set_map)
  next
    case na: False
    have "map_of (kvs @ [(k, v)]) k' = (if k' = k then Some v else map_of kvs k')"
      using nk by (auto simp: map_add_def split: option.splits)
    with False na show ?thesis by (simp add: obj_set_def del: set_map)
  qed
qed

lemma obj_get_obj_set:
  "obj_get (obj_set kvs k v) k' = (if k' = k then v else obj_get kvs k')"
  by (simp add: obj_get_def map_of_obj_set)

lemma obj_get_object_assign_other:
  "k \<notin> set (map fst src) \<Longrightarrow> obj_get (object_assign target src) k = obj_get target k"
  unfolding object_assign_def
  by (induction src arbitrary: target) (auto simp: obj_get_obj_set)

lemma obj_get_object_assign_own:
  "distinct (map fst src) \<Longrightarrow> k \<in> set (map fst src) \<Longrightarrow>
   obj_get (object_assign target src) k = obj_get src k"
proof (induction src arbitrary: target)
  case Nil
  then show ?case by simp
next
  case (Cons p src)
  show ?case
  proof (cases "fst p = k")
    case True
    then have "k \<notin> set (map fst src)" using Cons.prems(1) by auto
    then have "obj_get (object_assign (obj_set target (fst p) (snd p)) src) k
                 = obj_get (obj_set target (fst p) (snd p)) k"
      by (rule obj_get_object_assign_other)
    moreover have "obj_get (p # src) k = snd p"
      using True by (cases p) (simp add: obj_get_def)
    ultimately show ?thesis
      using True by (simp add: object_assign_def obj_get_obj_set)
  next
    case False
    then have "obj_get (object_assign (obj_set target (fst p) (snd p)) src) k = obj_get src k"
      using Cons by auto
    with False show ?thesis
      by (cases p) (simp add: object_assign_def obj_get_def)
  qed
qed

text \<open>
  The metadata of a declared action has an \<open>auth\<close> property only if the \<open>auth\<close> block of
  the declaration has one itself; without it, \<open>encryptMetadata\<close> returns the metadata as
  they are, with every property of the block, secrets included, as declared.
\<close>

lemma action_metadata_auth:
  assumes "auth ac = Some a" and "''auth'' \<notin> set (map fst a)"
  shows "obj_get (action_metadata ac raw) ''auth'' = JUndefined"
proof -
  have "\<And>md. obj_get (object_assign md a) ''auth'' = obj_get md ''auth''"
    using assms(2) by (rule obj_get_object_assign_other)
  moreover have "obj_get [(''domain'', ostr (domain ac)), (''raw_spec'', raw)] ''auth'' = JUndefined"
    by (simp add: obj_get_def)
  ultimately show ?thesis
    using assms(1) by (simp add: action_metadata_def Let_def obj_get_obj_set)
qed

lemma encryptMetadata_without_auth:
  "obj_get md ''auth'' = JUndefined \<Longrightarrow> encryptMetadata w md = Inr md"
  by (simp add: encryptMetadata_def)

lemma declared_secrets_stored_as_declared:
  assumes "syncAction w aid oid ac st = (Inr stored, st')"
    and "auth ac = Some a" and "distinct (map fst a)"
    and "''auth'' \<notin> set (map fst a)" and "k \<in> set (map fst a)"
  shows "obj_get (metadata stored) k = obj_get a k"
proof -
  from assms(1) obtain raw where
    "loadActionSpec w ac = Inr raw"
    and e: "encryptMetadata w (action_metadata ac raw) = Inr (metadata stored)"
    by (auto simp: syncAction_def Let_def updateAction_def elim!: and_then_Inr split: if_splits)
  have "encryptMetadata w (action_metadata ac raw) = Inr (action_metadata ac raw)"
    using action_metadata_auth[OF assms(2,4)] by (rule encryptMetadata_without_auth)
  with e have "metadata stored = action_metadata ac raw" by simp
  then show ?thesis
    using assms(2,3,5) by (simp add: action_metadata_def Let_def obj_get_object_assign_own del: set_map)
qed


text \<open>
  C1. The claim asks that the \<open>api_key\<close> of a \<open>service_http\<close> action be stored as the
  ciphertext only. \<open>syncActions\<close> copies the properties of the \<open>auth\<close> block to the top
  level of the metadata, so the metadata has no \<open>auth\<close> property for \<open>encryptMetadata\<close>
  to read the kind from, and nothing is encrypted: for the sample action, declared with
  \<open>auth: {type: service_http, api_key: sk-plain}\<close>, the stored \<open>api_key\<close> is the plain
  text, although the encryption collaborator would have returned \<open>enc[sk-plain]\<close>.
\<close>

theorem declared_api_key_stored_in_plain_text:
  "fst (syncActions sample_world ''support'' (Some [weather_action]) system_owner empty_store)
     = Inr [\<lparr> action_id = ''api.weather.test_support'', user = system_owner,
               agent_id = ''support'', action_type = ''action_prototype'',
               metadata = [(''domain'', JStr ''api.weather.test''), (''raw_spec'', JStr openapi_text),
                           (''type'', JStr ''service_http''), (''api_key'', JStr ''sk-plain'')] \<rparr>]
   \<and> map (\<lambda>a. obj_get (metadata a) ''api_key'')
         (st_actions (snd (syncActions sample_world ''support'' (Some [weather_action])
                             system_owner empty_store)))
     = [JStr ''sk-plain'']
   \<and> encryptSensitiveValue sample_world (JStr ''sk-plain'') = Inr ''enc[sk-plain]''"
  by code_simp

subsection \<open>The count returned by the cleanup\<close>

text \<open>The cleanup returns the number of the agents it set out to remove.\<close>

lemma cleanup_returns_candidates:
  "\<not> db_fails w FindAgents \<Longrightarrow>
   fst (cleanupRemovedAgents w ids oid st)
     = Inr (length (filter (\<lambda>agent. Some (rec_id agent) \<notin> set ids)
                      (filter (\<lambda>r. rec_author r = oid) (st_agents st))))"
  by (simp add: cleanupRemovedAgents_def and_then_def findAgents_def Let_def)

text \<open>
  C8. The claim asks that the cleanup return the number of agents whose removal
  succeeded. With one stored agent that is no longer declared and whose deletion fails,
  the cleanup returns 1 and the agent is still stored.
\<close>

theorem cleanup_counts_failed_removal:
  "fst (cleanupRemovedAgents delete_refused_world [Some ''support''] system_owner store_with_orphan)
     = Inr 1
   \<and> st_agents (snd (cleanupRemovedAgents delete_refused_world [Some ''support''] system_owner
                       store_with_orphan))
     = [orphan_record]"
  by code_simp

subsection \<open>Action identifiers\<close>

text \<open>
  C10. The action identifier is the domain, an underscore and the agent identifier, and
  two different pairs can give the same identifier: the action of domain \<open>a\<close> for the
  agent \<open>b_c\<close> and the action of domain \<open>a_b\<close> for the agent \<open>c\<close> are both stored
  under \<open>a_b_c\<close>, so that synchronising the second replaces the record of the first.
\<close>

theorem action_id_collision:
  "(\<forall>d a. generateActionId d a = d @ ''_'' @ a)
   \<and> generateActionId ''a'' ''b_c'' = generateActionId ''a_b'' ''c''
   \<and> (''a'', ''b_c'') \<noteq> (''a_b'', ''c'')
   \<and> map (\<lambda>a. (action_id a, agent_id a, obj_get (metadata a) ''domain''))
        (st_actions (snd (syncActions sample_world ''b_c''
                            (Some [weather_action\<lparr>domain := Some ''a''\<rparr>]) system_owner empty_store)))
     = [(''a_b_c'', ''b_c'', JStr ''a'')]
   \<and> \<not> isl (fst (syncActions sample_world ''c''
                     (Some [weather_action\<lparr>domain := Some ''a_b''\<rparr>]) system_owner
           (snd (syncActions sample_world ''b_c''
                   (Some [weather_action\<lparr>domain := Some ''a''\<rparr>]) system_owner empty_store))))
   \<and> map (\<lambda>a. (action_id a, agent_id a, obj_get (metadata a) ''domain''))
        (st_actions (snd (syncActions sample_world ''c''
                            (Some [weather_action\<lparr>domain := Some ''a_b''\<rparr>]) system_owner
           (snd (syncActions sample_world ''b_c''
                   (Some [weather_action\<lparr>domain := Some ''a''\<rparr>]) system_owner empty_store)))))
     = [(''a_b_c'', ''c'', JStr ''a_b'')]"
proof -
  have "\<forall>d a. generateActionId d a = d @ ''_'' @ a"
    by (simp add: generateActionId_def)
  moreover have "generateActionId ''a'' ''b_c'' = generateActionId ''a_b'' ''c''"
    by (simp add: generateActionId_def)
  moreover have "map (\<lambda>a. (action_id a, agent_id a, obj_get (metadata a) ''domain''))
        (st_actions (snd (syncActions sample_world ''b_c''
                            (Some [weather_action\<lparr>domain := Some ''a''\<rparr>]) system_owner empty_store)))
     = [(''a_b_c'', ''b_c'', JStr ''a'')]"
    by code_simp
  moreover have "map (\<lambda>a. (action_id a, agent_id a, obj_get (metadata a) ''domain''))
        (st_actions (snd (syncActions sample_world ''c''
                            (Some [weather_action\<lparr>domain := Some ''a_b''\<rparr>]) system_owner
           (snd (syncActions sample_world ''b_c''
                   (Some [weather_action\<lparr>domain := Some ''a''\<rparr>]) system_owner empty_store)))))
     = [(''a_b_c'', ''c'', JStr ''a_b'')]"
    by code_simp
  moreover have "\<not> isl (fst (syncActions sample_world ''c''
                     (Some [weather_action\<lparr>domain := Some ''a_b''\<rparr>]) system_owner
           (snd (syncActions sample_world ''b_c''
                   (Some [weather_action\<lparr>domain := Some ''a''\<rparr>]) system_owner empty_store))))"
    by code_simp
  ultimately show ?thesis by simp
qed

subsection \<open>The main loop\<close>

lemma entries_of_typed:
  "filter (\<lambda>e. err_type e = None) (entries_of agents outs) = entries_of agents outs"
  by (induction agents outs rule: entries_of.induct) (simp_all add: error_entry_def)



lemma sync_loop_attempts:
  "sync_loop w oid agents res st =
     (res\<lparr> syncedCount := syncedCount res + succeeded (attempts w oid agents st),
           errors := errors res @ entries_of agents (attempts w oid agents st),
           success := success res \<and> \<not> list_ex isl (attempts w oid agents st) \<rparr>,
      store_after w oid agents st)"
proof (induction agents arbitrary: res st)
  case Nil
  then show ?case by (simp add: succeeded_def)
next
  case (Cons a agents)
  show ?case
  proof (cases "syncAgent w a oid st")
    case (Pair r st1)
    then show ?thesis
      by (cases r) (simp_all add: Cons.IH succeeded_def error_entry_def)
  qed
qed

lemma cleanup_result_cases:
  "cleanupRemovedAgents w ids oid st = (r, st') \<Longrightarrow> isl r = db_fails w FindAgents"
  by (auto simp: cleanupRemovedAgents_def and_then_def findAgents_def Let_def split: if_splits)

lemma syncDefaultAgents_nonempty:
  "agents \<noteq> [] \<Longrightarrow>
   syncDefaultAgents w (Some agents) st =
     (case sync_loop w (getDefaultObjectId w) agents
             \<lparr> success = True, syncedCount = 0, removedCount = 0, errors = [] \<rparr> st of
        (res, st1) \<Rightarrow>
          (case cleanupRemovedAgents w (map agentId agents) (getDefaultObjectId w) st1 of
             (Inr removed, st2) \<Rightarrow> (res\<lparr> removedCount := removed \<rparr>, st2)
           | (Inl e, st2) \<Rightarrow>
               (res\<lparr> success := False,
                     errors := errors res
                       @ [\<lparr> err_agentId = None, err_agentName = None,
                            err_type = Some ''sync_failure'', err_message = message e \<rparr>] \<rparr>,
                st2)))"
  by (cases agents) (simp_all add: syncDefaultAgents_def Let_def del: sync_loop.simps)

lemma syncDefaultAgents_agents:
  assumes "agents \<noteq> []"
  shows "agent_entries (fst (syncDefaultAgents w (Some agents) st))
           = entries_of agents (attempts w (getDefaultObjectId w) agents st)
       \<and> syncedCount (fst (syncDefaultAgents w (Some agents) st))
           = succeeded (attempts w (getDefaultObjectId w) agents st)
       \<and> success (fst (syncDefaultAgents w (Some agents) st))
           = (\<not> db_fails w FindAgents
              \<and> \<not> list_ex isl (attempts w (getDefaultObjectId w) agents st))"
proof -
  obtain r st2 where c: "cleanupRemovedAgents w (map agentId agents) (getDefaultObjectId w)
          (store_after w (getDefaultObjectId w) agents st) = (r, st2)"
    by (cases "cleanupRemovedAgents w (map agentId agents) (getDefaultObjectId w)
          (store_after w (getDefaultObjectId w) agents st)")
  have k: "isl r = db_fails w FindAgents"
    using c by (rule cleanup_result_cases)
  show ?thesis
    using k
    by (cases r)
       (simp_all add: syncDefaultAgents_nonempty[OF assms] sync_loop_attempts c agent_entries_def
          entries_of_typed)
qed



subsection \<open>The success flag and the cleanup\<close>

text \<open>
  C9, as claimed: no failure of the cleanup phase makes \<open>success\<close> false. When the
  listing of the stored agents fails, the single declared agent is reconciled without
  error and yet the result has \<open>success = false\<close>, with one entry of type
  \<open>sync_failure\<close>.
\<close>

theorem listing_failure_flips_success:
  "\<not> list_ex isl (attempts listing_refused_world (getDefaultObjectId listing_refused_world)
                    [support_agent] empty_store)
   \<and> \<not> success (fst (syncDefaultAgents listing_refused_world (Some [support_agent]) empty_store))
   \<and> syncedCount (fst (syncDefaultAgents listing_refused_world (Some [support_agent]) empty_store)) = 1
   \<and> map err_type (errors (fst (syncDefaultAgents listing_refused_world (Some [support_agent])
                                  empty_store)))
       = [Some ''sync_failure'']"
  by code_simp

text \<open>
  C9, amended. For every run over a non-empty list of declarations, \<open>success\<close> is false
  if and only if some agent's reconciliation threw or the listing of the stored agents
  of the system owner failed; the failure of a deletion during the cleanup never changes
  it.
\<close>

theorem success_iff_agents_and_listing:
  assumes "agents \<noteq> []"
  shows "success (fst (syncDefaultAgents w (Some agents) st))
           \<longleftrightarrow> \<not> list_ex isl (attempts w (getDefaultObjectId w) agents st)
                \<and> \<not> db_fails w FindAgents"
  using syncDefaultAgents_agents[OF assms, of w st] by auto

theorem success_iff_agents_and_listing_witness:
  "[support_agent] \<noteq> []
   \<and> db_fails delete_refused_world (DeleteAgent ''retired'')
   \<and> map rec_id (st_agents (snd (syncDefaultAgents delete_refused_world (Some [support_agent])
                                   store_with_orphan)))
       = [''retired'', ''support'']
   \<and> success (fst (syncDefaultAgents delete_refused_world (Some [support_agent]) store_with_orphan))"
proof -
  have ne: "[support_agent] \<noteq> []" by simp
  have f: "db_fails delete_refused_world (DeleteAgent ''retired'')"
    by (simp add: delete_refused_world_def)
  have l: "\<not> db_fails delete_refused_world FindAgents"
    by (simp add: delete_refused_world_def)
  have a: "\<not> list_ex isl (attempts delete_refused_world (getDefaultObjectId delete_refused_world)
                    [support_agent] store_with_orphan)"
    by code_simp
  have s: "map rec_id (st_agents (snd (syncDefaultAgents delete_refused_world (Some [support_agent])
                                   store_with_orphan)))
       = [''retired'', ''support'']"
    by code_simp
  show ?thesis
    using success_iff_agents_and_listing[OF ne, of delete_refused_world store_with_orphan] f l a s
    by (simp del: attempts.simps)
qed

subsection \<open>Reconciling one agent\<close>

lemma find_id_author:
  assumes "distinct (map rec_id xs)"
    and "find (\<lambda>r. rec_id r = i \<and> rec_author r = a) xs = Some ex"
  shows "find (\<lambda>r. rec_id r = i) xs = Some ex"
  using assms
proof (induction xs)
  case Nil
  then show ?case by simp
next
  case (Cons x xs)
  show ?case
  proof (cases "rec_id x = i")
    case True
    have "i \<notin> set (map rec_id xs)" using Cons.prems(1) True by auto
    then have "find (\<lambda>r. rec_id r = i \<and> rec_author r = a) xs = None"
      by (auto simp: find_None_iff)
    with Cons.prems(2) True show ?thesis by (auto split: if_splits)
  next
    case False
    with Cons show ?thesis by simp
  qed
qed

lemma find_map_update:
  assumes "find (\<lambda>x. rec_id x = i) xs = Some r"
    and "\<And>x. rec_id (f x) = rec_id x"
  shows "find (\<lambda>x. rec_id x = i) (map (\<lambda>x. if rec_id x = i then f x else x) xs) = Some (f r)"
  using assms by (induction xs) (auto split: if_splits)

lemma rec_id_apply_update [simp]: "rec_id (apply_update u r) = rec_id r"
  by (simp add: apply_update_def)

lemma map_rec_id_update [simp]:
  "map rec_id (map (\<lambda>x. if rec_id x = i then apply_update u x else x) xs) = map rec_id xs"
  by (induction xs) auto

lemma find_append_new:
  "i \<notin> set (map rec_id xs) \<Longrightarrow> rec_id r = i \<Longrightarrow> find (\<lambda>x. rec_id x = i) (xs @ [r]) = Some r"
  by (induction xs) auto

lemma find_None_id:
  "i \<notin> set (map rec_id xs) \<Longrightarrow> find (\<lambda>x. rec_id x = i) xs = None"
  by (auto simp: find_None_iff)

lemma map_rec_id_update_comp [simp]:
  "map (rec_id \<circ> (\<lambda>x. if rec_id x = i then apply_update u x else x)) xs = map rec_id xs"
  by (induction xs) auto

text \<open>What a successful update of the stored agent leaves.\<close>

lemma updateAgent_Some:
  assumes "updateAgent w i u st = (Inr (Some r), st')"
  obtains r0 where "find (\<lambda>x. rec_id x = i) (st_agents st) = Some r0"
    and "r = apply_update u r0"
    and "st_agents st' = map (\<lambda>x. if rec_id x = i then apply_update u x else x) (st_agents st)"
    and "st_actions st' = st_actions st"
    and "find (\<lambda>x. rec_id x = i) (st_agents st') = Some r"
  using assms
  by (auto simp: updateAgent_def find_map_update split: if_splits option.splits)

lemma find_owner_None:
  assumes "find (\<lambda>r. rec_id r = i \<and> rec_author r = a) xs = None"
    and "\<forall>r \<in> set xs. rec_id r = i \<longrightarrow> rec_author r = a"
  shows "i \<notin> set (map rec_id xs)"
  using assms by (auto simp: find_None_iff)

lemma reconcile_record_result:
  assumes "reconcile_record w cfg instrs av oid h existing st = (Inr agent, st')"
    and "existing = find (\<lambda>r. rec_id r = tmpl (agentId cfg) \<and> rec_author r = oid) (st_agents st)"
    and "distinct (map rec_id (st_agents st))"
    and "\<forall>r \<in> set (st_agents st). rec_id r = tmpl (agentId cfg) \<longrightarrow> rec_author r = oid"
  shows "find (\<lambda>r. rec_id r = tmpl (agentId cfg)) (st_agents st') = Some agent
       \<and> rec_id agent = tmpl (agentId cfg)
       \<and> rec_author agent = oid
       \<and> distinct (map rec_id (st_agents st'))
       \<and> rec_actions agent = (case find (\<lambda>r. rec_id r = tmpl (agentId cfg)) (st_agents st) of
                                 None \<Rightarrow> [] | Some r \<Rightarrow> rec_actions r)"
proof (cases existing)
  case None
  with assms(1) obtain configHash where
    c: "createAgent w (tmpl (agentId cfg)) oid (agentData_of cfg instrs av) configHash st = (Inr agent, st')"
    by (auto simp: reconcile_record_def createDefaultAgent_def elim!: and_then_Inr)
  have new: "tmpl (agentId cfg) \<notin> set (map rec_id (st_agents st))"
    using None assms(2) assms(4) by (intro find_owner_None[where a = oid]) simp_all
  from c have ag: "agent = \<lparr> rec_id = tmpl (agentId cfg), rec_author = oid,
                      rec_data = agentData_of cfg instrs av, rec_actions = [],
                      rec_versions = [Some configHash] \<rparr>"
    and st': "st_agents st' = st_agents st @ [agent]"
    by (auto simp: createAgent_def Let_def split: if_splits)
  show ?thesis
    using new ag st' assms(3)
    by (simp add: find_append_new find_None_id del: set_map)
next
  case (Some ex)
  have ex: "find (\<lambda>r. rec_id r = tmpl (agentId cfg)) (st_agents st) = Some ex"
    using find_id_author[OF assms(3), of "tmpl (agentId cfg)" oid ex] assms(2) Some by simp
  then have idex: "rec_id ex = tmpl (agentId cfg)"
    by (auto simp: find_Some_iff)
  have auex: "rec_author ex = oid"
    using assms(2) Some by (auto simp: find_Some_iff dest: sym)
  show ?thesis
  proof (cases "truthy_str (last_hash ex) \<and> hashesEqual (tmpl (last_hash ex)) h")
    case True
    with assms(1) Some have "agent = ex" "st' = st"
      by (auto simp: reconcile_record_def)
    then show ?thesis using ex idex auex assms(3) by simp
  next
    case False
    with assms(1) Some obtain configHash where
      u: "updateAgent w (rec_id ex)
            \<lparr> upd_data = Some (agentData_of cfg instrs av), upd_version_hash = Some configHash,
              upd_actions = None \<rparr> st = (Inr (Some agent), st')"
      by (auto simp: reconcile_record_def updateDefaultAgent_def elim!: and_then_Inr
               split: option.splits)
    from u show ?thesis
      using ex idex auex assms(3)
      by (elim updateAgent_Some) (auto simp: apply_update_def)
  qed
qed


lemma syncAction_Inr:
  assumes "syncAction w aid oid ac st = (Inr a, st')"
  shows "action_id a = generateActionId (tmpl (domain ac)) aid \<and> st_agents st' = st_agents st"
  using assms
  by (auto simp: syncAction_def updateAction_def Let_def elim!: and_then_Inr split: if_splits)

lemma syncActions_loop_Inr:
  assumes "syncActions_loop w aid oid acts synced st = (Inr res, st')"
  shows "map action_id res = map action_id synced @ map (\<lambda>ac. generateActionId (tmpl (domain ac)) aid) acts
       \<and> st_agents st' = st_agents st"
  using assms
proof (induction acts arbitrary: synced st)
  case Nil
  then show ?case by simp
next
  case (Cons ac acts)
  from Cons.prems obtain a st1 where
    a: "syncAction w aid oid ac st = (Inr a, st1)"
    and r: "syncActions_loop w aid oid acts (synced @ [a]) st1 = (Inr res, st')"
    by (auto split: prod.splits sum.splits)
  show ?case
    using Cons.IH[OF r] syncAction_Inr[OF a] by simp
qed

lemma syncActions_Inr:
  assumes "syncActions w aid acts oid st = (Inr res, st')"
  shows "map action_id res = (case acts of None \<Rightarrow> [] | Some xs \<Rightarrow> map (\<lambda>ac. generateActionId (tmpl (domain ac)) aid) xs)
       \<and> st_agents st' = st_agents st"
proof (cases acts)
  case None
  with assms show ?thesis by (simp add: syncActions_def)
next
  case (Some xs)
  show ?thesis
  proof (cases xs)
    case Nil
    with assms Some show ?thesis by (simp add: syncActions_def)
  next
    case (Cons x rest)
    with assms Some have "syncActions_loop w aid oid xs [] st = (Inr res, st')"
      by (simp add: syncActions_def)
    from syncActions_loop_Inr[OF this] Some show ?thesis by simp
  qed
qed

lemma loadAgentFileContent_agents:
  assumes "loadAgentFileContent w cfg st = (r, st')"
  shows "st_agents st' = st_agents st"
  using assms
  by (auto simp: loadAgentFileContent_def load_avatar_def and_then_def
           split: sum.splits option.splits prod.splits)

lemma getAgent_Inr:
  assumes "getAgent w i a st = (Inr ex, st')"
  shows "st' = st \<and> ex = find (\<lambda>r. rec_id r = i \<and> rec_author r = a) (st_agents st)"
  using assms by (auto simp: getAgent_def split: if_splits)

lemma attach_actions_Inr:
  assumes "attach_actions w agent acts st = (Inr r, st')"
    and "find (\<lambda>x. rec_id x = rec_id agent) (st_agents st) = Some agent"
  shows "rec_actions r = (if acts = [] then rec_actions agent else map action_id acts)
       \<and> find (\<lambda>x. rec_id x = rec_id agent) (st_agents st') = Some r
       \<and> rec_author r = rec_author agent"
proof (cases "acts = []")
  case True
  with assms show ?thesis by (simp add: attach_actions_def)
next
  case False
  with assms(1) have "updateAgent w (rec_id agent)
          \<lparr> upd_data = None, upd_version_hash = None, upd_actions = Some (map action_id acts) \<rparr> st
        = (Inr (Some r), st')"
    by (auto simp: attach_actions_def elim!: and_then_Inr split: option.splits)
  then show ?thesis
    using False assms(2) by (elim updateAgent_Some) (simp add: apply_update_def)
qed

text \<open>
  C5, as claimed: the action list of the record is set to the identifiers returned by
  the reconciliation of the actions also when none is returned. An agent is synchronised
  with one action, then again with its actions emptied: the reconciliation of the actions
  returns the empty list, and the stored record still lists the former action.
\<close>

theorem emptied_action_list_not_written:
  "fst (syncActions sample_world ''support'' (Some []) system_owner
          (snd (syncAgent sample_world agent_with_action system_owner empty_store))) = Inr []
   \<and> \<not> isl (fst (syncAgent sample_world (support_agent\<lparr>actions := Some []\<rparr>) system_owner
                    (snd (syncAgent sample_world agent_with_action system_owner empty_store))))
   \<and> map rec_actions
        (st_agents (snd (syncAgent sample_world (support_agent\<lparr>actions := Some []\<rparr>) system_owner
                          (snd (syncAgent sample_world agent_with_action system_owner empty_store)))))
       = [[''api.weather.test_support'']]"
  by code_simp

lemma find_first_also:
  "find P xs = Some x \<Longrightarrow> Q x \<Longrightarrow> find (\<lambda>r. P r \<and> Q r) xs = Some x"
  by (induction xs) (auto split: if_splits)

lemma find_owned:
  assumes "\<forall>r \<in> set xs. rec_id r = i \<longrightarrow> rec_author r = a"
  shows "find (\<lambda>r. rec_id r = i \<and> rec_author r = a) xs = find (\<lambda>r. rec_id r = i) xs"
  using assms by (induction xs) auto

text \<open>
  C5, amended. The store is read as the spec reads it, by id and owner, and the update
  selects by id alone: so let the stored agents have distinct ids and let no record of
  another owner hold the id of the declaration. When \<open>syncAgent\<close> succeeds, the record it
  returns is the record stored for the agent and the system owner. If the declaration
  lists at least one action, the action list of that record is exactly the list of the
  identifiers of the reconciled actions, in the order declared, whatever the comparison
  of the hashes found. If no action is returned, the action list is not written: the
  record keeps the list it had before (the empty list for a record just created).
\<close>

theorem action_ids_follow_reconciliation:
  assumes "syncAgent w cfg oid st = (Inr agent, st')"
    and "distinct (map rec_id (st_agents st))"
    and "\<forall>r \<in> set (st_agents st). rec_id r = tmpl (agentId cfg) \<longrightarrow> rec_author r = oid"
  shows "find (\<lambda>r. rec_id r = tmpl (agentId cfg) \<and> rec_author r = oid) (st_agents st') = Some agent
       \<and> rec_actions agent =
           (case actions cfg of
              Some (a # rest) \<Rightarrow> map (\<lambda>ac. generateActionId (tmpl (domain ac)) (tmpl (agentId cfg))) (a # rest)
            | _ \<Rightarrow> (case find (\<lambda>r. rec_id r = tmpl (agentId cfg) \<and> rec_author r = oid) (st_agents st) of
                      None \<Rightarrow> [] | Some r \<Rightarrow> rec_actions r))"
proof -
  from assms(1) obtain instrs av st1 h ex st2 agent0 st3 acts st4 where
    l: "loadAgentFileContent w cfg st = (Inr (instrs, av), st1)"
    and g: "getAgent w (tmpl (agentId cfg)) oid st1 = (Inr ex, st2)"
    and r: "reconcile_record w cfg instrs av oid h ex st2 = (Inr agent0, st3)"
    and s: "syncActions w (tmpl (agentId cfg)) (actions cfg) oid st3 = (Inr acts, st4)"
    and t: "attach_actions w agent0 acts st4 = (Inr agent, st')"
    by (auto simp: syncAgent_def Let_def elim!: and_then_Inr split: if_splits)
  have a1: "st_agents st1 = st_agents st"
    using l by (rule loadAgentFileContent_agents)
  have a2: "st2 = st1" "ex = find (\<lambda>r. rec_id r = tmpl (agentId cfg) \<and> rec_author r = oid) (st_agents st1)"
    using getAgent_Inr[OF g] by simp_all
  have own: "find (\<lambda>r. rec_id r = tmpl (agentId cfg) \<and> rec_author r = oid) (st_agents st)
           = find (\<lambda>r. rec_id r = tmpl (agentId cfg)) (st_agents st)"
    using assms(3) by (rule find_owned)
  have rr: "find (\<lambda>r. rec_id r = tmpl (agentId cfg)) (st_agents st3) = Some agent0
       \<and> rec_id agent0 = tmpl (agentId cfg)
       \<and> rec_author agent0 = oid
       \<and> distinct (map rec_id (st_agents st3))
       \<and> rec_actions agent0 = (case find (\<lambda>r. rec_id r = tmpl (agentId cfg)) (st_agents st2) of
                                 None \<Rightarrow> [] | Some r \<Rightarrow> rec_actions r)"
  proof -
    have d2: "distinct (map rec_id (st_agents st2))"
      using a2 a1 assms(2) by simp
    have o2: "\<forall>r \<in> set (st_agents st2). rec_id r = tmpl (agentId cfg) \<longrightarrow> rec_author r = oid"
      using a2 a1 assms(3) by simp
    have r2: "reconcile_record w cfg instrs av oid h
                (find (\<lambda>r. rec_id r = tmpl (agentId cfg) \<and> rec_author r = oid) (st_agents st2)) st2
              = (Inr agent0, st3)"
      using r a2 by simp
    show ?thesis by (rule reconcile_record_result[OF r2 refl d2 o2])
  qed
  have ss: "map action_id acts = (case actions cfg of None \<Rightarrow> []
              | Some xs \<Rightarrow> map (\<lambda>ac. generateActionId (tmpl (domain ac)) (tmpl (agentId cfg))) xs)"
    and a4: "st_agents st4 = st_agents st3"
    using syncActions_Inr[OF s] by simp_all
  have tt: "rec_actions agent = (if acts = [] then rec_actions agent0 else map action_id acts)
       \<and> find (\<lambda>x. rec_id x = rec_id agent0) (st_agents st') = Some agent
       \<and> rec_author agent = rec_author agent0"
  proof -
    have f4: "find (\<lambda>x. rec_id x = rec_id agent0) (st_agents st4) = Some agent0"
      using rr a4 by simp
    show ?thesis by (rule attach_actions_Inr[OF t f4])
  qed
  have stored: "find (\<lambda>r. rec_id r = tmpl (agentId cfg) \<and> rec_author r = oid) (st_agents st') = Some agent"
  proof -
    have "find (\<lambda>r. rec_id r = tmpl (agentId cfg)) (st_agents st') = Some agent"
      using tt rr by simp
    moreover have "rec_author agent = oid"
      using tt rr by simp
    ultimately show ?thesis by (rule find_first_also)
  qed
  show ?thesis
  proof (cases "actions cfg")
    case None
    with ss have "acts = []" by simp
    with tt rr a2 a1 None stored own show ?thesis by simp
  next
    case (Some xs)
    show ?thesis
    proof (cases xs)
      case Nil
      with ss Some have "acts = []" by simp
      with tt rr a2 a1 Some Nil stored own show ?thesis by simp
    next
      case (Cons x rest)
      with ss Some have "acts \<noteq> []" by auto
      with tt rr ss Some Cons stored show ?thesis by simp
    qed
  qed
qed

theorem action_ids_follow_reconciliation_witness:
  "st_agents empty_store = []
   \<and> \<not> isl (fst (syncAgent sample_world agent_with_action system_owner empty_store))
   \<and> find (\<lambda>r. rec_id r = ''support'' \<and> rec_author r = system_owner)
        (st_agents (snd (syncAgent sample_world agent_with_action system_owner empty_store)))
       = Some (projr (fst (syncAgent sample_world agent_with_action system_owner empty_store)))
   \<and> rec_actions (projr (fst (syncAgent sample_world agent_with_action system_owner empty_store)))
       = [''api.weather.test_support'']"
proof -
  let ?run = "syncAgent sample_world agent_with_action system_owner empty_store"
  have e: "st_agents empty_store = []"
    by (simp add: empty_store_def)
  have d: "distinct (map rec_id (st_agents empty_store))"
    by (simp add: e)
  have o: "\<forall>r \<in> set (st_agents empty_store).
             rec_id r = tmpl (agentId agent_with_action) \<longrightarrow> rec_author r = system_owner"
    by (simp add: e)
  have ok: "\<not> isl (fst ?run)"
    by code_simp
  then have run: "?run = (Inr (projr (fst ?run)), snd ?run)"
    by (metis prod.collapse sum.collapse(2))
  have i: "tmpl (agentId agent_with_action) = ''support''"
    by code_simp
  have a: "actions agent_with_action = Some [weather_action]"
    by code_simp
  have n: "generateActionId (tmpl (domain weather_action)) ''support'' = ''api.weather.test_support''"
    by code_simp
  show ?thesis
    using action_ids_follow_reconciliation[OF run d o] e ok i a n by simp
qed

subsection \<open>Running the synchronisation twice\<close>

lemma and_then_Inl [simp]: "m st = (Inl e, st') \<Longrightarrow> and_then m f st = (Inl e, st')"
  by (simp add: and_then_def)

lemma and_then_Inr_eq [simp]: "m st = (Inr x, st') \<Longrightarrow> and_then m f st = f x st'"
  by (simp add: and_then_def)

lemma iconless_load_avatar:
  "iconless a \<Longrightarrow> load_avatar w a st = (Inr (inline_avatar a), st)"
  by (auto simp: iconless_def load_avatar_def inline_avatar_def present_def split: option.splits)

lemma grown_refl: "grown P st st"
  by (simp add: grown_def)

lemma grown_trans: "grown P st st1 \<Longrightarrow> grown P st1 st2 \<Longrightarrow> grown P st st2"
  by (auto simp: grown_def)

lemma grown_mono: "grown P st st' \<Longrightarrow> (\<And>op. P op \<Longrightarrow> Q op) \<Longrightarrow> grown Q st st'"
  by (auto simp: grown_def list_all_iff)

lemma grown_one: "st_journal st' = st_journal st @ [op] \<Longrightarrow> P op \<Longrightarrow> grown P st st'"
  by (simp add: grown_def)

text \<open>The reconciliation of the actions reads nothing from the store and writes no agent.\<close>

lemma syncAction_static:
  "fst (syncAction w i oid ac st) = fst (syncAction w i oid ac st0)"
  by (simp add: syncAction_def and_then_def lift_def updateAction_def Let_def
           split: sum.splits)

lemma syncAction_store:
  "st_agents (snd (syncAction w i oid ac st)) = st_agents st
   \<and> grown (\<lambda>op. op = UpdateAction (generateActionId (tmpl (domain ac)) i)) st
        (snd (syncAction w i oid ac st))"
  by (simp add: syncAction_def and_then_def lift_def updateAction_def Let_def grown_def
           split: sum.splits)

lemma syncActions_loop_static:
  "fst (syncActions_loop w i oid acts synced st) = fst (syncActions_loop w i oid acts synced st0)"
proof (induction acts arbitrary: synced st st0)
  case Nil
  then show ?case by simp
next
  case (Cons ac acts)
  obtain r s1 where a: "syncAction w i oid ac st = (r, s1)" by (cases "syncAction w i oid ac st")
  obtain r0 s0 where b: "syncAction w i oid ac st0 = (r0, s0)" by (cases "syncAction w i oid ac st0")
  have eq: "r0 = r" using syncAction_static[of w i oid ac st st0] a b by simp
  show ?case
  proof (cases r)
    case (Inl e)
    with a b eq show ?thesis by simp
  next
    case (Inr x)
    with a b eq Cons.IH[of "synced @ [x]" s1 s0] show ?thesis by simp
  qed
qed

lemma syncActions_loop_store:
  "st_agents (snd (syncActions_loop w i oid acts synced st)) = st_agents st
   \<and> grown (\<lambda>op. \<exists>ac \<in> set acts. op = UpdateAction (generateActionId (tmpl (domain ac)) i)) st
        (snd (syncActions_loop w i oid acts synced st))"
proof (induction acts arbitrary: synced st)
  case Nil
  then show ?case by (simp add: grown_refl)
next
  case (Cons ac acts)
  obtain r s1 where a: "syncAction w i oid ac st = (r, s1)" by (cases "syncAction w i oid ac st")
  have s1: "st_agents s1 = st_agents st"
    and g1: "grown (\<lambda>op. op = UpdateAction (generateActionId (tmpl (domain ac)) i)) st s1"
    using syncAction_store[of w i oid ac st] a by simp_all
  have g1': "grown (\<lambda>op. \<exists>ac \<in> set (ac # acts). op = UpdateAction (generateActionId (tmpl (domain ac)) i)) st s1"
    using g1 by (rule grown_mono) simp
  show ?case
  proof (cases r)
    case (Inl e)
    with a s1 g1' show ?thesis by simp
  next
    case (Inr x)
    have ih: "st_agents (snd (syncActions_loop w i oid acts (synced @ [x]) s1)) = st_agents s1
       \<and> grown (\<lambda>op. \<exists>ac \<in> set acts. op = UpdateAction (generateActionId (tmpl (domain ac)) i)) s1
            (snd (syncActions_loop w i oid acts (synced @ [x]) s1))"
      by (rule Cons.IH)
    then have g2: "grown (\<lambda>op. \<exists>ac \<in> set (ac # acts). op = UpdateAction (generateActionId (tmpl (domain ac)) i)) s1
            (snd (syncActions_loop w i oid acts (synced @ [x]) s1))"
      by (auto elim: grown_mono)
    show ?thesis
      using a Inr ih s1 grown_trans[OF g1' g2] by simp
  qed
qed

lemma syncActions_static:
  "fst (syncActions w i acts oid st) = fst (syncActions w i acts oid st0)"
proof (cases acts)
  case None
  then show ?thesis by (simp add: syncActions_def)
next
  case (Some xs)
  show ?thesis
  proof (cases xs)
    case Nil
    with Some show ?thesis by (simp add: syncActions_def)
  next
    case (Cons x rest)
    with Some show ?thesis
      using syncActions_loop_static[of w i oid xs "[]" st st0]
      by (simp add: syncActions_def)
  qed
qed

lemma syncActions_outcome:
  "fst (syncActions w (tmpl (agentId a)) (actions a) oid st) = actions_outcome w oid a"
  unfolding actions_outcome_def by (rule syncActions_static)

lemma syncActions_store:
  "st_agents (snd (syncActions w (tmpl (agentId a)) (actions a) oid st)) = st_agents st
   \<and> grown (\<lambda>op. \<exists>ac \<in> set (declared_actions a).
                  op = UpdateAction (generateActionId (tmpl (domain ac)) (tmpl (agentId a)))) st
        (snd (syncActions w (tmpl (agentId a)) (actions a) oid st))"
proof (cases "actions a")
  case None
  then show ?thesis by (simp add: syncActions_def grown_refl)
next
  case (Some xs)
  show ?thesis
  proof (cases xs)
    case Nil
    with Some show ?thesis by (simp add: syncActions_def grown_refl)
  next
    case (Cons x rest)
    with Some show ?thesis
      using syncActions_loop_store[of w "tmpl (agentId a)" oid xs "[]" st]
      by (simp add: syncActions_def declared_actions_def)
  qed
qed

text \<open>The action records that the reconciliation of the actions leaves.\<close>

lemma updateAction_actions:
  "action_id x = aid \<Longrightarrow>
   st_actions (snd (updateAction w aid usr x st))
     = (if db_fails w (UpdateAction aid) then st_actions st else upsert usr x (st_actions st))"
  by (auto simp: updateAction_def upsert_def)

lemma updateAction_result:
  "fst (updateAction w aid usr x st)
     = (if db_fails w (UpdateAction aid) then Inl (db_error (UpdateAction aid)) else Inr x)"
  by (simp add: updateAction_def)

lemma syncAction_actions:
  "st_actions (snd (syncAction w i oid ac st))
     = (case fst (syncAction w i oid ac st0) of
          Inl e \<Rightarrow> st_actions st
        | Inr x \<Rightarrow> upsert oid x (st_actions st))"
proof (cases "loadActionSpec w ac")
  case (Inl e)
  then show ?thesis by (simp add: syncAction_def and_then_def)
next
  case raw: (Inr raw)
  show ?thesis
  proof (cases "encryptMetadata w (action_metadata ac raw)")
    case (Inl e)
    with raw show ?thesis by (simp add: syncAction_def and_then_def Let_def)
  next
    case (Inr enc)
    let ?x = "\<lparr> action_id = generateActionId (tmpl (domain ac)) i, user = oid, agent_id = i,
                 action_type = ''action_prototype'', metadata = enc \<rparr>"
    have "\<And>s. syncAction w i oid ac s
            = updateAction w (generateActionId (tmpl (domain ac)) i) oid ?x s"
      using raw Inr by (simp add: syncAction_def and_then_def Let_def)
    then show ?thesis
      by (simp add: updateAction_actions updateAction_result)
  qed
qed

lemma syncAction_record:
  assumes "fst (syncAction w i oid ac st) = Inr x"
  shows "user x = oid \<and> action_id x = generateActionId (tmpl (domain ac)) i"
  using assms
  by (auto simp: syncAction_def and_then_def lift_def updateAction_def Let_def
           split: sum.splits if_splits)

lemma syncActions_loop_actions:
  "st_actions (snd (syncActions_loop w i oid acts synced st))
     = fold (upsert oid) (written_loop w i oid acts) (st_actions st)"
proof (induction acts arbitrary: synced st)
  case Nil
  then show ?case by simp
next
  case (Cons ac acts)
  let ?blank = "\<lparr> st_agents = [], st_actions = [], st_journal = [], st_uuid = 0 \<rparr>"
  obtain r s1 where a: "syncAction w i oid ac st = (r, s1)" by (cases "syncAction w i oid ac st")
  have b: "fst (syncAction w i oid ac ?blank) = r"
    using syncAction_static[of w i oid ac ?blank st] a by simp
  have c: "st_actions s1 = (case r of Inl e \<Rightarrow> st_actions st | Inr x \<Rightarrow> upsert oid x (st_actions st))"
    using syncAction_actions[of w i oid ac st ?blank] a b by simp
  show ?case
  proof (cases r)
    case (Inl e)
    with a b c show ?thesis by simp
  next
    case (Inr x)
    with a b c Cons.IH[of "synced @ [x]" s1] show ?thesis by simp
  qed
qed

lemma syncActions_actions:
  "st_actions (snd (syncActions w (tmpl (agentId a)) (actions a) oid st))
     = fold (upsert oid) (written w oid a) (st_actions st)"
proof (cases "actions a")
  case None
  then show ?thesis by (simp add: syncActions_def written_def declared_actions_def)
next
  case (Some xs)
  show ?thesis
  proof (cases xs)
    case Nil
    with Some show ?thesis by (simp add: syncActions_def written_def declared_actions_def)
  next
    case (Cons x rest)
    with Some show ?thesis
      using syncActions_loop_actions[of w "tmpl (agentId a)" oid xs "[]" st]
      by (simp add: syncActions_def written_def declared_actions_def)
  qed
qed

lemma written_loop_records:
  "x \<in> set (written_loop w i oid acts) \<Longrightarrow>
   user x = oid \<and> (\<exists>ac \<in> set acts. action_id x = generateActionId (tmpl (domain ac)) i)"
proof (induction acts)
  case Nil
  then show ?case by simp
next
  case (Cons ac acts)
  let ?blank = "\<lparr> st_agents = [], st_actions = [], st_journal = [], st_uuid = 0 \<rparr>"
  show ?case
  proof (cases "fst (syncAction w i oid ac ?blank)")
    case (Inl e)
    with Cons.prems show ?thesis by simp
  next
    case (Inr y)
    note rec = syncAction_record[OF Inr]
    from Cons.prems Inr consider "x = y" | "x \<in> set (written_loop w i oid acts)" by auto
    then show ?thesis
    proof cases
      case 1
      with rec show ?thesis by simp
    next
      case 2
      with Cons.IH show ?thesis by auto
    qed
  qed
qed

lemma written_records:
  assumes "x \<in> set (written w oid a)"
  shows "user x = oid" and "rerun_op [a] (UpdateAction (action_id x))"
  using written_loop_records[OF assms[unfolded written_def]]
  by (auto simp: list_ex_iff)

lemma actions_outcome_nonempty:
  assumes "actions_outcome w oid a = Inr acts" and "acts \<noteq> []"
  shows "declared_actions a \<noteq> []"
  using assms
  by (auto simp: actions_outcome_def syncActions_def declared_actions_def
           split: option.splits list.splits)


lemma iconless_syncAgent:
  assumes "iconless a"
  shows "syncAgent w a oid st =
     (case prepare w a of
        Inl e \<Rightarrow> (Inl e, st)
      | Inr (instrs, av, h) \<Rightarrow>
          and_then (getAgent w (tmpl (agentId a)) oid) (\<lambda>ex.
          and_then (reconcile_record w a instrs av oid h ex) (\<lambda>agent.
          and_then (syncActions w (tmpl (agentId a)) (actions a) oid) (\<lambda>acts.
            attach_actions w agent acts))) st)"
proof (cases "validateAgentConfig a = []")
  case False
  then show ?thesis by (simp add: syncAgent_def prepare_def)
next
  case True
  show ?thesis
  proof (cases "load_instructions w a")
    case (Inl e)
    with True show ?thesis
      by (simp add: syncAgent_def prepare_def loadAgentFileContent_def and_then_def)
  next
    case (Inr instrs)
    have lc: "loadAgentFileContent w a st = (Inr (instrs, inline_avatar a), st)"
      using Inr iconless_load_avatar[OF assms] by (simp add: loadAgentFileContent_def and_then_def)
    show ?thesis
    proof (cases "calculateAgentConfigHash (w_hashing w) a instrs (inline_avatar a)")
      case (Inl e)
      with True Inr lc show ?thesis
        by (simp add: syncAgent_def prepare_def)
    next
      case h: (Inr h)
      with True Inr lc show ?thesis
        by (simp add: syncAgent_def prepare_def)
    qed
  qed
qed

lemma find_append_other:
  "rec_id r \<noteq> j \<Longrightarrow> find (\<lambda>x. rec_id x = j) (xs @ [r]) = find (\<lambda>x. rec_id x = j) xs"
  by (induction xs) auto

lemma find_update_other:
  "j \<noteq> i \<Longrightarrow> (\<And>x. rec_id (f x) = rec_id x) \<Longrightarrow>
   find (\<lambda>x. rec_id x = j) (map (\<lambda>x. if rec_id x = i then f x else x) xs)
     = find (\<lambda>x. rec_id x = j) xs"
  by (induction xs) auto

lemma map_update_ids:
  "(\<And>x. rec_id (f x) = rec_id x) \<Longrightarrow>
   map rec_id (map (\<lambda>x. if rec_id x = i then f x else x) xs) = map rec_id xs"
  by (induction xs) auto

lemma map_update_same:
  assumes "distinct (map rec_id xs)"
    and "find (\<lambda>x. rec_id x = i) xs = Some r"
    and "f r = r"
  shows "map (\<lambda>x. if rec_id x = i then f x else x) xs = xs"
proof -
  have "\<And>x. x \<in> set xs \<Longrightarrow> rec_id x = i \<Longrightarrow> x = r"
  proof -
    fix x assume x: "x \<in> set xs" "rec_id x = i"
    have r: "r \<in> set xs" "rec_id r = i"
      using assms(2) by (auto simp: find_Some_iff)
    show "x = r"
      using assms(1) x r by (auto simp: distinct_map inj_on_def)
  qed
  then have "map (\<lambda>x. if rec_id x = i then f x else x) xs = map (\<lambda>x. x) xs"
    using assms(3) by (intro map_cong) auto
  then show ?thesis by simp
qed

lemma map_if_same: "(\<And>x. f x = x) \<Longrightarrow> map (\<lambda>x. if P x then f x else x) xs = xs"
  by (induction xs) auto

lemma lookup_in_ids: "lookup st i = None \<longleftrightarrow> i \<notin> set (map rec_id (st_agents st))"
  by (auto simp: lookup_def find_None_iff)

lemma lookup_rec_id: "lookup st i = Some r \<Longrightarrow> rec_id r = i"
  by (auto simp: lookup_def find_Some_iff)

lemma lookup_agents: "st_agents st' = st_agents st \<Longrightarrow> lookup st' = lookup st"
  by (rule ext) (simp add: lookup_def)

lemma with_actions_fields [simp]:
  "rec_id (with_actions w oid a r) = rec_id r"
  "rec_author (with_actions w oid a r) = rec_author r"
  "rec_versions (with_actions w oid a r) = rec_versions r"
  by (simp_all add: with_actions_def split: sum.splits)

lemma with_actions_idem [simp]:
  "with_actions w oid a (with_actions w oid a r) = with_actions w oid a r"
  by (simp add: with_actions_def split: sum.splits)

lemma hash_matches_with_actions [simp]:
  "hash_matches (with_actions w oid a r) h = hash_matches r h"
  by (simp add: hash_matches_def last_hash_def)

text \<open>
  The second half of \<open>syncAgent\<close>, from a store that holds the record of the agent: the
  actions are reconciled and their list is attached.
\<close>

lemma actions_phase:
  assumes f: "lookup s (tmpl (agentId a)) = Some agent"
    and i: "agentId a = Some (tmpl (agentId a))"
  shows "isl (fst (and_then (syncActions w (tmpl (agentId a)) (actions a) oid)
                     (\<lambda>acts. attach_actions w agent acts) s))
           = (\<not> actions_ok w oid a)
       \<and> st_agents (snd (and_then (syncActions w (tmpl (agentId a)) (actions a) oid)
                            (\<lambda>acts. attach_actions w agent acts) s))
           = map (\<lambda>x. if rec_id x = tmpl (agentId a) then with_actions w oid a x else x) (st_agents s)
       \<and> grown (rerun_op [a]) s
           (snd (and_then (syncActions w (tmpl (agentId a)) (actions a) oid)
                   (\<lambda>acts. attach_actions w agent acts) s))
       \<and> st_actions (snd (and_then (syncActions w (tmpl (agentId a)) (actions a) oid)
                            (\<lambda>acts. attach_actions w agent acts) s))
           = fold (upsert oid) (written w oid a) (st_actions s)"
proof -
  let ?i = "tmpl (agentId a)"
  obtain r s1 where sa: "syncActions w ?i (actions a) oid s = (r, s1)"
    by (cases "syncActions w ?i (actions a) oid s")
  have w1: "st_actions s1 = fold (upsert oid) (written w oid a) (st_actions s)"
    using syncActions_actions[of w a oid s] sa by simp
  have out: "actions_outcome w oid a = r"
    using syncActions_outcome[of w a oid s] sa by simp
  have a1: "st_agents s1 = st_agents s"
    using syncActions_store[of w a oid s] sa by simp
  have "grown (\<lambda>op. \<exists>ac \<in> set (declared_actions a).
                  op = UpdateAction (generateActionId (tmpl (domain ac)) ?i)) s s1"
    using syncActions_store[of w a oid s] sa by simp
  then have g1: "grown (rerun_op [a]) s s1"
    by (rule grown_mono) (auto simp: list_ex_iff)
  have ri: "rec_id agent = ?i" using f by (rule lookup_rec_id)
  show ?thesis
  proof (cases r)
    case (Inl e)
    then have wa: "\<And>x. with_actions w oid a x = x"
      using out by (simp add: with_actions_def)
    show ?thesis
      using Inl sa out a1 g1 w1 by (simp add: actions_ok_def map_if_same[OF wa])
  next
    case (Inr acts)
    show ?thesis
    proof (cases "acts = []")
      case True
      then have wa: "\<And>x. with_actions w oid a x = x"
        using out Inr by (simp add: with_actions_def)
      show ?thesis
        using True sa Inr out a1 g1 w1 by (simp add: actions_ok_def map_if_same[OF wa] attach_actions_def)
    next
      case ne: False
      show ?thesis
      proof (cases "db_fails w (UpdateAgent ?i)")
        case True
        then have wa: "\<And>x. with_actions w oid a x = x"
          using out Inr by (simp add: with_actions_def)
        show ?thesis
          using True sa Inr out a1 g1 w1 ne ri
          by (simp add: actions_ok_def map_if_same[OF wa] attach_actions_def updateAgent_def)
      next
        case False
        let ?u = "\<lparr> upd_data = None, upd_version_hash = None, upd_actions = Some (map action_id acts) \<rparr>"
        let ?s2 = "s1\<lparr> st_agents := map (\<lambda>x. if rec_id x = ?i then apply_update ?u x else x) (st_agents s1),
                        st_journal := st_journal s1 @ [UpdateAgent ?i] \<rparr>"
        have f1: "find (\<lambda>x. rec_id x = ?i) (st_agents s1) = Some agent"
          using f a1 by (simp add: lookup_def)
        have at: "attach_actions w agent acts s1 = (Inr (apply_update ?u agent), ?s2)"
          using ne False ri f1 by (simp add: attach_actions_def updateAgent_def and_then_def)
        have wa: "\<And>x. with_actions w oid a x = apply_update ?u x"
          using out Inr ne False by (simp add: with_actions_def apply_update_def)
        have da: "declared_actions a \<noteq> []"
          using out Inr ne by (intro actions_outcome_nonempty[of w oid a acts]) simp_all
        have "rerun_op [a] (UpdateAgent ?i)"
          using i da by simp
        then have g2: "grown (rerun_op [a]) s1 ?s2"
          by (intro grown_one[where op = "UpdateAgent ?i"]) simp_all
        show ?thesis
          using sa Inr out a1 ne False at grown_trans[OF g1 g2] w1
          by (simp add: actions_ok_def wa cong: if_cong)
      qed
    qed
  qed
qed

text \<open>The reconciliation of a record, by the record stored under the id.\<close>

lemma reconcile_at:
  assumes own: "\<forall>r \<in> set (st_agents st). rec_id r = tmpl (agentId a) \<longrightarrow> rec_author r = oid"
    and h: "calculateAgentConfigHash (w_hashing w) a instrs av = Inr h"
  shows "reconcile_record w a instrs av oid h
           (find (\<lambda>r. rec_id r = tmpl (agentId a) \<and> rec_author r = oid) (st_agents st)) st
       = (case lookup st (tmpl (agentId a)) of
            None \<Rightarrow>
              createAgent w (tmpl (agentId a)) oid (agentData_of a instrs av) h st
          | Some r \<Rightarrow>
              if hash_matches r h then (Inr r, st)
              else if db_fails w (UpdateAgent (tmpl (agentId a)))
                then (Inl (db_error (UpdateAgent (tmpl (agentId a)))), st)
              else (Inr (apply_update \<lparr> upd_data = Some (agentData_of a instrs av),
                                        upd_version_hash = Some h, upd_actions = None \<rparr> r),
                    st\<lparr> st_agents := map (\<lambda>x. if rec_id x = tmpl (agentId a)
                                               then apply_update \<lparr> upd_data = Some (agentData_of a instrs av),
                                                      upd_version_hash = Some h, upd_actions = None \<rparr> x
                                               else x) (st_agents st),
                        st_journal := st_journal st @ [UpdateAgent (tmpl (agentId a))] \<rparr>))"
proof -
  have fo: "find (\<lambda>r. rec_id r = tmpl (agentId a) \<and> rec_author r = oid) (st_agents st)
          = lookup st (tmpl (agentId a))"
    using own unfolding lookup_def by (rule find_owned)
  show ?thesis
  proof (cases "lookup st (tmpl (agentId a))")
    case None
    with h fo show ?thesis
      by (simp add: reconcile_record_def createDefaultAgent_def and_then_def)
  next
    case (Some r)
    then have ri: "rec_id r = tmpl (agentId a)" by (rule lookup_rec_id)
    have f2: "find (\<lambda>x. rec_id x = tmpl (agentId a)) (st_agents st) = Some r"
      using Some by (simp add: lookup_def)
    show ?thesis
      using Some h fo f2 ri
      by (simp add: reconcile_record_def updateDefaultAgent_def and_then_def updateAgent_def
            hash_matches_def)
  qed
qed


lemma validate_ok_id:
  "validateAgentConfig a = [] \<Longrightarrow> agentId a = Some (tmpl (agentId a))"
  by (cases "agentId a")
     (auto simp: validateAgentConfig_def truthy_str_def ostr_def tmpl_def split: if_splits)

lemma agent_hash_digest:
  "calculateAgentConfigHash hh a i av = Inr x \<Longrightarrow> \<exists>s. x = sha256_hex hh s"
  by (auto simp: calculateAgentConfigHash_def calculateHash_def Let_def)

lemma prepare_Inr:
  assumes "prepare w a = Inr (instrs, av, h)"
  shows "calculateAgentConfigHash (w_hashing w) a instrs av = Inr h"
    and "agentId a = Some (tmpl (agentId a))"
    and "\<exists>s. h = sha256_hex (w_hashing w) s"
proof -
  from assms have v: "validateAgentConfig a = []"
    by (auto simp: prepare_def split: if_splits)
  from assms v show c: "calculateAgentConfigHash (w_hashing w) a instrs av = Inr h"
    by (auto simp: prepare_def split: sum.splits)
  from v show "agentId a = Some (tmpl (agentId a))" by (rule validate_ok_id)
  from c show "\<exists>s. h = sha256_hex (w_hashing w) s" by (rule agent_hash_digest)
qed

lemma hash_matches_new:
  "h \<noteq> [] \<Longrightarrow> rec_versions r = vs @ [Some h] \<Longrightarrow> hash_matches r h"
  by (cases vs)
     (auto simp: hash_matches_def last_hash_def truthy_str_def ostr_def tmpl_def hashesEqual_def
           split: list.splits)

text \<open>
  The second half of \<open>syncAgent\<close>, from a store in which the record of the agent carries
  the hash of the declaration.
\<close>

lemma after_reconcile:
  assumes f: "lookup s (tmpl (agentId a)) = Some agent"
    and hm: "hash_matches agent h"
    and pr: "prepare w a = Inr (instrs, av, h)"
    and g: "\<not> db_fails w (GetAgent (tmpl (agentId a)))"
    and d: "distinct (map rec_id (st_agents s))"
  shows "isl (fst (and_then (syncActions w (tmpl (agentId a)) (actions a) oid)
                     (\<lambda>acts. attach_actions w agent acts) s))
           = (\<not> actions_ok w oid a)"
    and "st_agents (snd (and_then (syncActions w (tmpl (agentId a)) (actions a) oid)
                            (\<lambda>acts. attach_actions w agent acts) s))
           = map (\<lambda>x. if rec_id x = tmpl (agentId a) then with_actions w oid a x else x) (st_agents s)"
    and "grown (rerun_op [a]) s
           (snd (and_then (syncActions w (tmpl (agentId a)) (actions a) oid)
                   (\<lambda>acts. attach_actions w agent acts) s))"
    and "distinct (map rec_id (st_agents
           (snd (and_then (syncActions w (tmpl (agentId a)) (actions a) oid)
                   (\<lambda>acts. attach_actions w agent acts) s))))"
    and "quiet_at w oid a (lookup
           (snd (and_then (syncActions w (tmpl (agentId a)) (actions a) oid)
                   (\<lambda>acts. attach_actions w agent acts) s)) (tmpl (agentId a)))"
    and "ok_at w oid a (lookup
           (snd (and_then (syncActions w (tmpl (agentId a)) (actions a) oid)
                   (\<lambda>acts. attach_actions w agent acts) s)) (tmpl (agentId a)))
           = actions_ok w oid a"
    and "\<And>j. j \<noteq> tmpl (agentId a) \<Longrightarrow>
           lookup (snd (and_then (syncActions w (tmpl (agentId a)) (actions a) oid)
                   (\<lambda>acts. attach_actions w agent acts) s)) j = lookup s j"
    and "\<And>j. \<forall>r \<in> set (st_agents s). rec_id r = j \<longrightarrow> rec_author r = oid \<Longrightarrow>
           \<forall>r \<in> set (st_agents (snd (and_then (syncActions w (tmpl (agentId a)) (actions a) oid)
                   (\<lambda>acts. attach_actions w agent acts) s))). rec_id r = j \<longrightarrow> rec_author r = oid"
    and "\<And>r. r \<in> set (st_agents (snd (and_then (syncActions w (tmpl (agentId a)) (actions a) oid)
                   (\<lambda>acts. attach_actions w agent acts) s))) \<Longrightarrow> rec_id r \<noteq> tmpl (agentId a)
           \<Longrightarrow> r \<in> set (st_agents s)"
    and "st_actions (snd (and_then (syncActions w (tmpl (agentId a)) (actions a) oid)
                            (\<lambda>acts. attach_actions w agent acts) s))
           = fold (upsert oid) (written w oid a) (st_actions s)"
    and "reaches_at w oid a (lookup
           (snd (and_then (syncActions w (tmpl (agentId a)) (actions a) oid)
                   (\<lambda>acts. attach_actions w agent acts) s)) (tmpl (agentId a)))"
proof -
  let ?i = "tmpl (agentId a)"
  let ?s' = "snd (and_then (syncActions w ?i (actions a) oid) (\<lambda>acts. attach_actions w agent acts) s)"
  let ?upd = "\<lambda>x. if rec_id x = ?i then with_actions w oid a x else x"
  note ph = actions_phase[OF f prepare_Inr(2)[OF pr], of w oid]
  show "isl (fst (and_then (syncActions w ?i (actions a) oid) (\<lambda>acts. attach_actions w agent acts) s))
           = (\<not> actions_ok w oid a)"
    using ph by blast
  show ag: "st_agents ?s' = map ?upd (st_agents s)"
    using ph by blast
  show "grown (rerun_op [a]) s ?s'"
    using ph by blast
  have ids: "map rec_id (st_agents ?s') = map rec_id (st_agents s)"
    unfolding ag by (rule map_update_ids) simp
  show "distinct (map rec_id (st_agents ?s'))"
    using ids d by simp
  have l1: "lookup ?s' ?i = Some (with_actions w oid a agent)"
    unfolding lookup_def ag using f[unfolded lookup_def]
    by (rule find_map_update) simp
  show "quiet_at w oid a (lookup ?s' ?i)"
    using pr hm by (simp add: l1 quiet_at_def)
  show "ok_at w oid a (lookup ?s' ?i) = actions_ok w oid a"
    using pr hm g by (simp add: l1 ok_at_def)
  show "\<And>j. j \<noteq> ?i \<Longrightarrow> lookup ?s' j = lookup s j"
    unfolding lookup_def ag by (rule find_update_other) simp_all
  show "\<And>j. \<forall>r \<in> set (st_agents s). rec_id r = j \<longrightarrow> rec_author r = oid \<Longrightarrow>
           \<forall>r \<in> set (st_agents ?s'). rec_id r = j \<longrightarrow> rec_author r = oid"
    unfolding ag by auto
  show "\<And>r. r \<in> set (st_agents ?s') \<Longrightarrow> rec_id r \<noteq> ?i \<Longrightarrow> r \<in> set (st_agents s)"
    unfolding ag by (auto split: if_splits)
  show "st_actions ?s' = fold (upsert oid) (written w oid a) (st_actions s)"
    using ph by blast
  show "reaches_at w oid a (lookup ?s' ?i)"
    using pr hm g by (simp add: l1 reaches_at_def)
qed


text \<open>
  One agent without an icon file, on a store with distinct ids in which the id of the
  agent is held by no record of another owner.
\<close>

lemma iconless_step:
  assumes p: "iconless a"
    and d: "distinct (map rec_id (st_agents st))"
    and own: "\<forall>r \<in> set (st_agents st). agentId a = Some (rec_id r) \<longrightarrow> rec_author r = oid"
    and nz: "\<forall>x. sha256_hex (w_hashing w) x \<noteq> []"
  shows "(\<not> isl (fst (syncAgent w a oid st))) = ok_at w oid a (lookup st (tmpl (agentId a)))"
    and "quiet_at w oid a (lookup st (tmpl (agentId a))) \<Longrightarrow>
           st_agents (snd (syncAgent w a oid st)) = st_agents st
           \<and> grown (rerun_op [a]) st (snd (syncAgent w a oid st))"
    and "distinct (map rec_id (st_agents (snd (syncAgent w a oid st))))"
    and "quiet_at w oid a (lookup (snd (syncAgent w a oid st)) (tmpl (agentId a)))"
    and "ok_at w oid a (lookup (snd (syncAgent w a oid st)) (tmpl (agentId a)))
           = ok_at w oid a (lookup st (tmpl (agentId a)))"
    and "\<And>j. agentId a \<noteq> Some j \<Longrightarrow> lookup (snd (syncAgent w a oid st)) j = lookup st j"
    and "\<And>j. \<forall>r \<in> set (st_agents st). rec_id r = j \<longrightarrow> rec_author r = oid \<Longrightarrow>
           \<forall>r \<in> set (st_agents (snd (syncAgent w a oid st))). rec_id r = j \<longrightarrow> rec_author r = oid"
    and "\<And>r. r \<in> set (st_agents (snd (syncAgent w a oid st))) \<Longrightarrow> agentId a \<noteq> Some (rec_id r)
           \<Longrightarrow> r \<in> set (st_agents st)"
    and "st_actions (snd (syncAgent w a oid st))
           = fold (upsert oid)
               (if reaches_at w oid a (lookup st (tmpl (agentId a))) then written w oid a else [])
               (st_actions st)"
    and "reaches_at w oid a (lookup (snd (syncAgent w a oid st)) (tmpl (agentId a)))
           = reaches_at w oid a (lookup st (tmpl (agentId a)))"
proof -
  let ?i = "tmpl (agentId a)"
  let ?R = "syncAgent w a oid st"
  have all: "((\<not> isl (fst ?R)) = ok_at w oid a (lookup st ?i))
      \<and> (quiet_at w oid a (lookup st ?i) \<longrightarrow>
            st_agents (snd ?R) = st_agents st \<and> grown (rerun_op [a]) st (snd ?R))
      \<and> distinct (map rec_id (st_agents (snd ?R)))
      \<and> quiet_at w oid a (lookup (snd ?R) ?i)
      \<and> ok_at w oid a (lookup (snd ?R) ?i) = ok_at w oid a (lookup st ?i)
      \<and> (\<forall>j. agentId a \<noteq> Some j \<longrightarrow> lookup (snd ?R) j = lookup st j)
      \<and> (\<forall>j. (\<forall>r \<in> set (st_agents st). rec_id r = j \<longrightarrow> rec_author r = oid) \<longrightarrow>
               (\<forall>r \<in> set (st_agents (snd ?R)). rec_id r = j \<longrightarrow> rec_author r = oid))
      \<and> (\<forall>r \<in> set (st_agents (snd ?R)). agentId a \<noteq> Some (rec_id r) \<longrightarrow> r \<in> set (st_agents st))
      \<and> st_actions (snd ?R)
          = fold (upsert oid) (if reaches_at w oid a (lookup st ?i) then written w oid a else [])
              (st_actions st)
      \<and> reaches_at w oid a (lookup (snd ?R) ?i) = reaches_at w oid a (lookup st ?i)"
  proof (cases "prepare w a")
    case (Inl e)
    then show ?thesis
      using d by (simp add: iconless_syncAgent[OF p] quiet_at_def ok_at_def reaches_at_def grown_refl)
  next
    case (Inr t)
    obtain instrs av h where t: "t = (instrs, av, h)" by (cases t) auto
    note prep = Inr[unfolded t]
    note pr = prepare_Inr[OF prep]
    have hz: "h \<noteq> []" using pr(3) nz by auto
    have idj: "\<And>j. agentId a \<noteq> Some j \<Longrightarrow> j \<noteq> ?i" using pr(2) by auto
    have own': "\<forall>r \<in> set (st_agents st). rec_id r = ?i \<longrightarrow> rec_author r = oid"
      using own pr(2) by auto
    show ?thesis
    proof (cases "db_fails w (GetAgent ?i)")
      case True
      then show ?thesis
        using d Inr t
        by (simp add: iconless_syncAgent[OF p] quiet_at_def ok_at_def reaches_at_def getAgent_def
              and_then_def grown_refl)
    next
      case False
      let ?phase = "\<lambda>agent. and_then (syncActions w ?i (actions a) oid)
                              (\<lambda>acts. attach_actions w agent acts)"
      have run: "?R = and_then (reconcile_record w a instrs av oid h
                         (find (\<lambda>r. rec_id r = ?i \<and> rec_author r = oid) (st_agents st))) ?phase st"
        using False Inr t by (simp add: iconless_syncAgent[OF p] getAgent_def and_then_def)
      note ra = reconcile_at[OF own' pr(1)]
      show ?thesis
      proof (cases "lookup st ?i")
        case None
        then have new: "?i \<notin> set (map rec_id (st_agents st))"
          by (simp add: lookup_in_ids)
        show ?thesis
        proof (cases "db_fails w (CreateAgent ?i)")
          case True
          then have "?R = (Inl (db_error (CreateAgent ?i)), st)"
            using None run ra by (simp add: createAgent_def)
          then show ?thesis
            using None True d Inr t False
            by (simp add: quiet_at_def ok_at_def reaches_at_def grown_refl)
        next
          case cf: False
          let ?r = "\<lparr> rec_id = ?i, rec_author = oid, rec_data = agentData_of a instrs av,
                       rec_actions = [], rec_versions = [Some h] \<rparr>"
          let ?s = "st\<lparr> st_agents := st_agents st @ [?r],
                         st_journal := st_journal st @ [CreateAgent ?i] \<rparr>"
          have res: "?R = ?phase ?r ?s"
            using None cf run ra by (simp add: createAgent_def Let_def)
          have hm: "hash_matches ?r h"
            using hz by (intro hash_matches_new[where vs = "[]"]) simp_all
          have l1: "lookup ?s ?i = Some ?r"
            using new by (simp add: lookup_def find_append_new del: set_map)
          have ds: "distinct (map rec_id (st_agents ?s))"
            using d new by (simp del: set_map)
          note ar = after_reconcile[OF l1 hm prep False ds, where oid = oid]
          have l2: "\<And>j. j \<noteq> ?i \<Longrightarrow> lookup ?s j = lookup st j"
            by (simp add: lookup_def find_append_other)
          have c1: "(\<not> isl (fst ?R)) = ok_at w oid a (lookup st ?i)"
            using ar(1) None cf False Inr t by (simp add: res ok_at_def)
          have c2: "\<not> quiet_at w oid a (lookup st ?i)"
            using None cf False Inr t by (simp add: quiet_at_def)
          have c3: "distinct (map rec_id (st_agents (snd ?R)))"
            using ar(4) by (simp add: res)
          have c4: "quiet_at w oid a (lookup (snd ?R) ?i)"
            using ar(5) by (simp add: res)
          have c5: "ok_at w oid a (lookup (snd ?R) ?i) = ok_at w oid a (lookup st ?i)"
            using ar(6) None cf False Inr t by (simp add: res ok_at_def)
          have c6: "\<forall>j. agentId a \<noteq> Some j \<longrightarrow> lookup (snd ?R) j = lookup st j"
            using ar(7) l2 idj by (simp add: res)
          have c7: "\<forall>j. (\<forall>r \<in> set (st_agents st). rec_id r = j \<longrightarrow> rec_author r = oid) \<longrightarrow>
               (\<forall>r \<in> set (st_agents (snd ?R)). rec_id r = j \<longrightarrow> rec_author r = oid)"
          proof (intro allI impI)
            fix j assume "\<forall>r \<in> set (st_agents st). rec_id r = j \<longrightarrow> rec_author r = oid"
            then have "\<forall>r \<in> set (st_agents ?s). rec_id r = j \<longrightarrow> rec_author r = oid"
              by simp
            then show "\<forall>r \<in> set (st_agents (snd ?R)). rec_id r = j \<longrightarrow> rec_author r = oid"
              unfolding res by (rule ar(8))
          qed
          have c8: "\<forall>r \<in> set (st_agents (snd ?R)). agentId a \<noteq> Some (rec_id r) \<longrightarrow> r \<in> set (st_agents st)"
          proof (intro ballI impI)
            fix r assume r: "r \<in> set (st_agents (snd ?R))" "agentId a \<noteq> Some (rec_id r)"
            then have ne: "rec_id r \<noteq> ?i" using idj by simp
            have "r \<in> set (st_agents ?s)"
              using r(1) ne unfolding res by (rule ar(9))
            then show "r \<in> set (st_agents st)" using ne by auto
          qed
          have c9: "st_actions (snd ?R)
                = fold (upsert oid) (if reaches_at w oid a (lookup st ?i) then written w oid a else [])
                    (st_actions st)"
            using ar(10) None cf False Inr t by (simp add: res reaches_at_def)
          have c10: "reaches_at w oid a (lookup (snd ?R) ?i) = reaches_at w oid a (lookup st ?i)"
            using ar(11) None cf False Inr t by (simp add: res reaches_at_def)
          show ?thesis
            using c1 c2 c3 c4 c5 c6 c7 c8 c9 c10 by blast
        qed
      next
        case (Some r)
        then have ri: "rec_id r = ?i" by (rule lookup_rec_id)
        show ?thesis
        proof (cases "hash_matches r h")
          case True
          have res: "?R = ?phase r st"
            using Some True run ra by simp
          note ar = after_reconcile[OF Some True prep False d, where oid = oid]
          have c1: "(\<not> isl (fst ?R)) = ok_at w oid a (lookup st ?i)"
            using ar(1) Some True False Inr t by (simp add: res ok_at_def)
          have c2: "quiet_at w oid a (lookup st ?i) \<longrightarrow>
                      st_agents (snd ?R) = st_agents st \<and> grown (rerun_op [a]) st (snd ?R)"
          proof
            assume "quiet_at w oid a (lookup st ?i)"
            then have same: "with_actions w oid a r = r"
              using Some True False Inr t by (simp add: quiet_at_def)
            have "map (\<lambda>x. if rec_id x = ?i then with_actions w oid a x else x) (st_agents st)
                    = st_agents st"
              using d Some[unfolded lookup_def] same by (rule map_update_same)
            then show "st_agents (snd ?R) = st_agents st \<and> grown (rerun_op [a]) st (snd ?R)"
              using ar(2) ar(3) by (simp add: res)
          qed
          have c3: "distinct (map rec_id (st_agents (snd ?R)))"
            using ar(4) by (simp add: res)
          have c4: "quiet_at w oid a (lookup (snd ?R) ?i)"
            using ar(5) by (simp add: res)
          have c5: "ok_at w oid a (lookup (snd ?R) ?i) = ok_at w oid a (lookup st ?i)"
            using ar(6) Some True False Inr t by (simp add: res ok_at_def)
          have c6: "\<forall>j. agentId a \<noteq> Some j \<longrightarrow> lookup (snd ?R) j = lookup st j"
            using ar(7) idj by (simp add: res)
          have c7: "\<forall>j. (\<forall>r \<in> set (st_agents st). rec_id r = j \<longrightarrow> rec_author r = oid) \<longrightarrow>
               (\<forall>r \<in> set (st_agents (snd ?R)). rec_id r = j \<longrightarrow> rec_author r = oid)"
            unfolding res using ar(8) by blast
          have c8: "\<forall>r \<in> set (st_agents (snd ?R)). agentId a \<noteq> Some (rec_id r) \<longrightarrow> r \<in> set (st_agents st)"
            unfolding res using ar(9) idj by blast
          have c9: "st_actions (snd ?R)
                = fold (upsert oid) (if reaches_at w oid a (lookup st ?i) then written w oid a else [])
                    (st_actions st)"
            using ar(10) Some True False Inr t by (simp add: res reaches_at_def)
          have c10: "reaches_at w oid a (lookup (snd ?R) ?i) = reaches_at w oid a (lookup st ?i)"
            using ar(11) Some True False Inr t by (simp add: res reaches_at_def)
          show ?thesis
            using c1 c2 c3 c4 c5 c6 c7 c8 c9 c10 by blast
        next
          case nm: False
          show ?thesis
          proof (cases "db_fails w (UpdateAgent ?i)")
            case True
            then have "?R = (Inl (db_error (UpdateAgent ?i)), st)"
              using Some nm run ra by simp
            then show ?thesis
              using Some nm True d Inr t False
              by (simp add: quiet_at_def ok_at_def reaches_at_def grown_refl)
          next
            case uf: False
            let ?u = "\<lparr> upd_data = Some (agentData_of a instrs av), upd_version_hash = Some h,
                         upd_actions = None \<rparr>"
            let ?s = "st\<lparr> st_agents := map (\<lambda>x. if rec_id x = ?i then apply_update ?u x else x) (st_agents st),
                           st_journal := st_journal st @ [UpdateAgent ?i] \<rparr>"
            have res: "?R = ?phase (apply_update ?u r) ?s"
              using Some nm uf run ra by simp
            have hm: "hash_matches (apply_update ?u r) h"
              using hz by (intro hash_matches_new[where vs = "rec_versions r"]) (simp_all add: apply_update_def)
            have l1: "lookup ?s ?i = Some (apply_update ?u r)"
              using Some by (simp add: lookup_def find_map_update)
            have ds: "distinct (map rec_id (st_agents ?s))"
              using d by simp
            note ar = after_reconcile[OF l1 hm prep False ds, where oid = oid]
            have l2: "\<And>j. j \<noteq> ?i \<Longrightarrow> lookup ?s j = lookup st j"
              by (simp add: lookup_def find_update_other)
            have c1: "(\<not> isl (fst ?R)) = ok_at w oid a (lookup st ?i)"
              using ar(1) Some nm uf False Inr t by (simp add: res ok_at_def)
            have c2: "\<not> quiet_at w oid a (lookup st ?i)"
              using Some nm uf False Inr t by (simp add: quiet_at_def)
            have c3: "distinct (map rec_id (st_agents (snd ?R)))"
              using ar(4) by (simp add: res)
            have c4: "quiet_at w oid a (lookup (snd ?R) ?i)"
              using ar(5) by (simp add: res)
            have c5: "ok_at w oid a (lookup (snd ?R) ?i) = ok_at w oid a (lookup st ?i)"
              using ar(6) Some nm uf False Inr t by (simp add: res ok_at_def)
            have c6: "\<forall>j. agentId a \<noteq> Some j \<longrightarrow> lookup (snd ?R) j = lookup st j"
              using ar(7) l2 idj by (simp add: res)
            have c7: "\<forall>j. (\<forall>r \<in> set (st_agents st). rec_id r = j \<longrightarrow> rec_author r = oid) \<longrightarrow>
                 (\<forall>r \<in> set (st_agents (snd ?R)). rec_id r = j \<longrightarrow> rec_author r = oid)"
            proof (intro allI impI)
              fix j assume "\<forall>r \<in> set (st_agents st). rec_id r = j \<longrightarrow> rec_author r = oid"
              then have "\<forall>r \<in> set (st_agents ?s). rec_id r = j \<longrightarrow> rec_author r = oid"
                by (auto simp: apply_update_def)
              then show "\<forall>r \<in> set (st_agents (snd ?R)). rec_id r = j \<longrightarrow> rec_author r = oid"
                unfolding res by (rule ar(8))
            qed
            have c8: "\<forall>r \<in> set (st_agents (snd ?R)). agentId a \<noteq> Some (rec_id r) \<longrightarrow> r \<in> set (st_agents st)"
            proof (intro ballI impI)
              fix x assume x: "x \<in> set (st_agents (snd ?R))" "agentId a \<noteq> Some (rec_id x)"
              then have ne: "rec_id x \<noteq> ?i" using idj by simp
              have "x \<in> set (st_agents ?s)"
                using x(1) ne unfolding res by (rule ar(9))
              then show "x \<in> set (st_agents st)" using ne by (auto split: if_splits)
            qed
            have c9: "st_actions (snd ?R)
                  = fold (upsert oid) (if reaches_at w oid a (lookup st ?i) then written w oid a else [])
                      (st_actions st)"
              using ar(10) Some nm uf False Inr t by (simp add: res reaches_at_def)
            have c10: "reaches_at w oid a (lookup (snd ?R) ?i) = reaches_at w oid a (lookup st ?i)"
              using ar(11) Some nm uf False Inr t by (simp add: res reaches_at_def)
            show ?thesis
              using c1 c2 c3 c4 c5 c6 c7 c8 c9 c10 by blast
          qed
        qed
      qed
    qed
  qed
  from all show "(\<not> isl (fst ?R)) = ok_at w oid a (lookup st ?i)" by blast
  from all show "quiet_at w oid a (lookup st ?i) \<Longrightarrow>
           st_agents (snd ?R) = st_agents st \<and> grown (rerun_op [a]) st (snd ?R)" by blast
  from all show "distinct (map rec_id (st_agents (snd ?R)))" by blast
  from all show "quiet_at w oid a (lookup (snd ?R) ?i)" by blast
  from all show "ok_at w oid a (lookup (snd ?R) ?i) = ok_at w oid a (lookup st ?i)"
    by blast
  from all show "\<And>j. agentId a \<noteq> Some j \<Longrightarrow> lookup (snd ?R) j = lookup st j"
    by blast
  from all show "\<And>j. \<forall>r \<in> set (st_agents st). rec_id r = j \<longrightarrow> rec_author r = oid \<Longrightarrow>
           \<forall>r \<in> set (st_agents (snd ?R)). rec_id r = j \<longrightarrow> rec_author r = oid"
    by blast
  from all show "\<And>r. r \<in> set (st_agents (snd ?R)) \<Longrightarrow> agentId a \<noteq> Some (rec_id r)
           \<Longrightarrow> r \<in> set (st_agents st)"
    by blast
  from all show "st_actions (snd ?R)
          = fold (upsert oid) (if reaches_at w oid a (lookup st ?i) then written w oid a else [])
              (st_actions st)"
    by blast
  from all show "reaches_at w oid a (lookup (snd ?R) ?i) = reaches_at w oid a (lookup st ?i)"
    by blast
qed


lemma cleaned_refl: "cleaned ids st st"
  by (simp add: cleaned_def grown_refl)

lemma cleaned_trans: "cleaned ids st st1 \<Longrightarrow> cleaned ids st1 st2 \<Longrightarrow> cleaned ids st st2"
  by (auto simp: cleaned_def intro: grown_trans)

lemma find_filter_other:
  "(\<And>x. rec_id x = j \<Longrightarrow> P x) \<Longrightarrow>
   find (\<lambda>x. rec_id x = j) (filter P xs) = find (\<lambda>x. rec_id x = j) xs"
  by (induction xs) auto

lemma deleteAction_cleaned: "cleaned ids st (snd (deleteAction w x oid st))"
  by (simp add: deleteAction_def cleaned_def lookup_def grown_def)

lemma delete_actions_cleaned: "cleaned ids st (snd (delete_actions w oid xs st))"
proof (induction xs arbitrary: st)
  case Nil
  then show ?case by (simp add: cleaned_refl)
next
  case (Cons x xs)
  show ?case
  proof (cases "deleteAction w x oid st")
    case (Pair r st1)
    have c1: "cleaned ids st st1"
      using deleteAction_cleaned[of ids st w x oid] Pair by simp
    show ?thesis
    proof (cases r)
      case (Inl e)
      with Pair c1 show ?thesis by simp
    next
      case (Inr u)
      with Pair c1 Cons.IH[of st1] show ?thesis
        by (auto intro: cleaned_trans)
    qed
  qed
qed

lemma deleteAgent_cleaned:
  "Some i \<notin> set ids \<Longrightarrow> cleaned ids st (snd (deleteAgent w i oid st))"
proof -
  assume n: "Some i \<notin> set ids"
  have "\<And>j. Some j \<in> set ids \<Longrightarrow>
          find (\<lambda>x. rec_id x = j)
            (filter (\<lambda>r. \<not> (rec_id r = i \<and> rec_author r = oid)) (st_agents st))
          = find (\<lambda>x. rec_id x = j) (st_agents st)"
    using n by (intro find_filter_other) auto
  then show ?thesis
    by (auto simp: deleteAgent_def cleaned_def lookup_def distinct_map_filter grown_def)
qed

lemma remove_agent_cleaned:
  assumes "Some (rec_id agent) \<notin> set ids"
  shows "cleaned ids st (snd (remove_agent w oid agent st))"
proof (cases "delete_actions w oid (rec_actions agent) st")
  case (Pair r st1)
  have c1: "cleaned ids st st1"
    using delete_actions_cleaned[of ids st w oid "rec_actions agent"] Pair by simp
  show ?thesis
  proof (cases r)
    case (Inl e)
    with Pair c1 show ?thesis by (simp add: remove_agent_def and_then_def)
  next
    case (Inr u)
    have "cleaned ids st1 (snd (deleteAgent w (rec_id agent) oid st1))"
      using assms by (rule deleteAgent_cleaned)
    with Pair Inr c1 show ?thesis
      by (auto simp: remove_agent_def and_then_def intro: cleaned_trans)
  qed
qed

lemma remove_loop_cleaned:
  assumes "\<forall>agent \<in> set orphans. Some (rec_id agent) \<notin> set ids"
  shows "cleaned ids st (remove_loop w oid orphans st)"
  using assms
proof (induction orphans arbitrary: st)
  case Nil
  then show ?case by (simp add: cleaned_refl)
next
  case (Cons agent orphans)
  have c1: "cleaned ids st (snd (remove_agent w oid agent st))"
    using Cons.prems by (intro remove_agent_cleaned) simp
  have c2: "cleaned ids (snd (remove_agent w oid agent st))
              (remove_loop w oid orphans (snd (remove_agent w oid agent st)))"
    using Cons.prems by (intro Cons.IH) simp
  from c1 c2 show ?case by (auto intro: cleaned_trans)
qed

lemma cleanup_cleaned: "cleaned ids st (snd (cleanupRemovedAgents w ids oid st))"
proof (cases "db_fails w FindAgents")
  case True
  then show ?thesis
    by (simp add: cleanupRemovedAgents_def and_then_def findAgents_def cleaned_refl)
next
  case False
  let ?orphans = "filter (\<lambda>agent. Some (rec_id agent) \<notin> set ids)
                    (filter (\<lambda>r. rec_author r = oid) (st_agents st))"
  have "cleaned ids st (remove_loop w oid ?orphans st)"
    by (rule remove_loop_cleaned) simp
  with False show ?thesis
    by (simp add: cleanupRemovedAgents_def and_then_def findAgents_def Let_def cleaned_refl)
qed

lemma owned_agents: "st_agents st' = st_agents st \<Longrightarrow> owned oid ids st' = owned oid ids st"
  by (simp add: owned_def)

lemma owned_subset: "set (st_agents st') \<subseteq> set (st_agents st) \<Longrightarrow> owned oid ids st \<Longrightarrow> owned oid ids st'"
  by (auto simp: owned_def)

lemma rerun_op_here: "rerun_op [a] op \<Longrightarrow> rerun_op (a # agents) op"
  by (cases op) simp_all

lemma rerun_op_later: "rerun_op agents op \<Longrightarrow> rerun_op (a # agents) op"
  by (cases op) simp_all

lemma rerun_op_delete: "is_delete op \<Longrightarrow> rerun_op agents op"
  by (cases op) simp_all

text \<open>The loop over agents without icon files.\<close>

lemma store_after_frame:
  assumes "\<forall>b \<in> set agents. iconless b"
    and "distinct (map rec_id (st_agents st))"
    and "set (map agentId agents) \<subseteq> set ids"
    and "owned oid ids st"
    and "\<forall>x. sha256_hex (w_hashing w) x \<noteq> []"
  shows "distinct (map rec_id (st_agents (store_after w oid agents st)))
       \<and> owned oid ids (store_after w oid agents st)
       \<and> (\<forall>j. (\<forall>b \<in> set agents. agentId b \<noteq> Some j)
              \<longrightarrow> lookup (store_after w oid agents st) j = lookup st j)
       \<and> (\<forall>r \<in> set (st_agents (store_after w oid agents st)).
              (\<forall>b \<in> set agents. agentId b \<noteq> Some (rec_id r)) \<longrightarrow> r \<in> set (st_agents st))"
  using assms(1,2,3,4)
proof (induction agents arbitrary: st)
  case Nil
  then show ?case by simp
next
  case (Cons a agents)
  have pa: "iconless a" using Cons.prems(1) by simp
  have own: "\<forall>r \<in> set (st_agents st). agentId a = Some (rec_id r) \<longrightarrow> rec_author r = oid"
    using Cons.prems(3,4) by (auto simp: owned_def)
  note st = iconless_step[OF pa Cons.prems(2) own assms(5)]
  let ?s1 = "snd (syncAgent w a oid st)"
  have o1: "owned oid ids ?s1"
    unfolding owned_def
  proof (intro ballI impI)
    fix r assume r: "r \<in> set (st_agents ?s1)" "Some (rec_id r) \<in> set ids"
    have "\<forall>x \<in> set (st_agents st). rec_id x = rec_id r \<longrightarrow> rec_author x = oid"
      using Cons.prems(4) r(2) by (auto simp: owned_def)
    then have "\<forall>x \<in> set (st_agents ?s1). rec_id x = rec_id r \<longrightarrow> rec_author x = oid"
      by (rule st(7))
    then show "rec_author r = oid" using r(1) by simp
  qed
  have ih: "distinct (map rec_id (st_agents (store_after w oid agents ?s1)))
       \<and> owned oid ids (store_after w oid agents ?s1)
       \<and> (\<forall>j. (\<forall>b \<in> set agents. agentId b \<noteq> Some j)
              \<longrightarrow> lookup (store_after w oid agents ?s1) j = lookup ?s1 j)
       \<and> (\<forall>r \<in> set (st_agents (store_after w oid agents ?s1)).
              (\<forall>b \<in> set agents. agentId b \<noteq> Some (rec_id r)) \<longrightarrow> r \<in> set (st_agents ?s1))"
    using Cons.prems(1,3) st(3) o1 by (intro Cons.IH) simp_all
  show ?case
    using ih st(6) st(8) by simp
qed

lemma no_id_never_prepared:
  assumes "agentId a = None"
  shows "quiet_at w oid a x" and "\<not> ok_at w oid a x"
proof -
  have "validateAgentConfig a \<noteq> []"
    using assms validate_ok_id[of a] by auto
  then have "isl (prepare w a)" by (simp add: prepare_def)
  then obtain e where "prepare w a = Inl e" by (cases "prepare w a") auto
  then show "quiet_at w oid a x" and "\<not> ok_at w oid a x"
    by (simp_all add: quiet_at_def ok_at_def)
qed

lemma first_run:
  assumes "\<forall>b \<in> set agents. iconless b"
    and "distinct (map agentId agents)"
    and "distinct (map rec_id (st_agents st))"
    and "set (map agentId agents) \<subseteq> set ids"
    and "owned oid ids st"
    and "\<forall>x. sha256_hex (w_hashing w) x \<noteq> []"
  shows "(\<forall>a \<in> set agents. quiet_at w oid a (lookup (store_after w oid agents st) (tmpl (agentId a))))
       \<and> map (\<lambda>r. \<not> isl r) (attempts w oid agents st)
         = map (\<lambda>a. ok_at w oid a (lookup (store_after w oid agents st) (tmpl (agentId a)))) agents"
  using assms(1,2,3,4,5)
proof (induction agents arbitrary: st)
  case Nil
  then show ?case by simp
next
  case (Cons a agents)
  have pa: "iconless a" and pr: "\<forall>b \<in> set agents. iconless b"
    using Cons.prems(1) by simp_all
  have own: "\<forall>r \<in> set (st_agents st). agentId a = Some (rec_id r) \<longrightarrow> rec_author r = oid"
    using Cons.prems(4,5) by (auto simp: owned_def)
  note st = iconless_step[OF pa Cons.prems(3) own assms(6)]
  let ?s1 = "snd (syncAgent w a oid st)"
  let ?s2 = "store_after w oid agents ?s1"
  have sub: "set (map agentId agents) \<subseteq> set ids"
    using Cons.prems(4) by simp
  have o1: "owned oid ids ?s1"
    using store_after_frame[of "[a]" st ids oid w] pa Cons.prems(3,4,5) assms(6) by simp
  have ih: "(\<forall>b \<in> set agents. quiet_at w oid b (lookup ?s2 (tmpl (agentId b))))
       \<and> map (\<lambda>r. \<not> isl r) (attempts w oid agents ?s1)
         = map (\<lambda>b. ok_at w oid b (lookup ?s2 (tmpl (agentId b)))) agents"
    using pr Cons.prems(2) st(3) sub o1 by (intro Cons.IH) simp_all
  have here: "quiet_at w oid a (lookup ?s2 (tmpl (agentId a)))
            \<and> ok_at w oid a (lookup ?s2 (tmpl (agentId a))) = (\<not> isl (fst (syncAgent w a oid st)))"
  proof (cases "agentId a")
    case None
    then show ?thesis
      using st(1) no_id_never_prepared[OF None, of w oid] by simp
  next
    case (Some i)
    then have "\<forall>b \<in> set agents. agentId b \<noteq> Some i"
      using Cons.prems(2) by force
    then have "lookup ?s2 i = lookup ?s1 i"
      using store_after_frame[OF pr st(3) sub o1 assms(6)] by blast
    moreover have "tmpl (agentId a) = i"
      using Some by (simp add: tmpl_def ostr_def)
    ultimately show ?thesis
      using st(1) st(4) st(5) by simp
  qed
  show ?case
    using ih here by simp
qed

lemma second_run:
  assumes "\<forall>b \<in> set agents. iconless b"
    and "distinct (map rec_id (st_agents st))"
    and "set (map agentId agents) \<subseteq> set ids"
    and "owned oid ids st"
    and "\<forall>x. sha256_hex (w_hashing w) x \<noteq> []"
    and "\<forall>a \<in> set agents. quiet_at w oid a (lookup st (tmpl (agentId a)))"
  shows "st_agents (store_after w oid agents st) = st_agents st
       \<and> grown (rerun_op agents) st (store_after w oid agents st)
       \<and> map (\<lambda>r. \<not> isl r) (attempts w oid agents st)
         = map (\<lambda>a. ok_at w oid a (lookup st (tmpl (agentId a)))) agents"
  using assms(1,2,3,4,6)
proof (induction agents arbitrary: st)
  case Nil
  then show ?case by (simp add: grown_refl)
next
  case (Cons a agents)
  have pa: "iconless a" using Cons.prems(1) by simp
  have own: "\<forall>r \<in> set (st_agents st). agentId a = Some (rec_id r) \<longrightarrow> rec_author r = oid"
    using Cons.prems(3,4) by (auto simp: owned_def)
  note st = iconless_step[OF pa Cons.prems(2) own assms(5)]
  let ?s1 = "snd (syncAgent w a oid st)"
  have q: "quiet_at w oid a (lookup st (tmpl (agentId a)))"
    using Cons.prems(5) by simp
  have same: "st_agents ?s1 = st_agents st" and g1: "grown (rerun_op [a]) st ?s1"
    using st(2)[OF q] by simp_all
  have lk: "lookup ?s1 = lookup st"
    using same by (rule lookup_agents)
  have ih: "st_agents (store_after w oid agents ?s1) = st_agents ?s1
       \<and> grown (rerun_op agents) ?s1 (store_after w oid agents ?s1)
       \<and> map (\<lambda>r. \<not> isl r) (attempts w oid agents ?s1)
         = map (\<lambda>a. ok_at w oid a (lookup ?s1 (tmpl (agentId a)))) agents"
    using Cons.prems same lk owned_agents[OF same, of oid ids] by (intro Cons.IH) simp_all
  have g: "grown (rerun_op (a # agents)) st (store_after w oid agents ?s1)"
  proof -
    have "grown (rerun_op (a # agents)) st ?s1"
      using g1 by (rule grown_mono) (rule rerun_op_here)
    moreover have "grown (rerun_op (a # agents)) ?s1 (store_after w oid agents ?s1)"
      using ih by (auto elim!: grown_mono intro: rerun_op_later)
    ultimately show ?thesis by (rule grown_trans)
  qed
  show ?case
    using same ih g st(1) lk by simp
qed

lemma succeeded_map: "succeeded outs = length (filter (\<lambda>b. b) (map (\<lambda>r. \<not> isl r) outs))"
  by (simp add: succeeded_def filter_map comp_def)

lemma syncDefaultAgents_store:
  assumes "agents \<noteq> []"
  shows "snd (syncDefaultAgents w (Some agents) st)
       = snd (cleanupRemovedAgents w (map agentId agents) (getDefaultObjectId w)
                (store_after w (getDefaultObjectId w) agents st))"
proof -
  obtain r st2 where c: "cleanupRemovedAgents w (map agentId agents) (getDefaultObjectId w)
          (store_after w (getDefaultObjectId w) agents st) = (r, st2)"
    by (cases "cleanupRemovedAgents w (map agentId agents) (getDefaultObjectId w)
          (store_after w (getDefaultObjectId w) agents st)")
  show ?thesis
    by (cases r) (simp_all add: syncDefaultAgents_nonempty[OF assms] sync_loop_attempts c)
qed

text \<open>Upserts of records of one user.\<close>

lemma find_Some_set: "find P xs = Some x \<Longrightarrow> P x \<and> x \<in> set xs"
  by (induction xs) (auto split: if_splits)

lemma upsert_has_key:
  "user x = usr \<Longrightarrow> \<exists>y \<in> set (upsert usr x recs). action_id y = action_id x \<and> user y = usr"
  by (auto simp: upsert_def)

lemma upsert_keeps_keys:
  assumes "\<exists>y \<in> set recs. action_id y = k \<and> user y = usr" and "user x = usr"
  shows "\<exists>y \<in> set (upsert usr x recs). action_id y = k \<and> user y = usr"
proof -
  obtain y where y: "y \<in> set recs" "action_id y = k" "user y = usr"
    using assms(1) by auto
  show ?thesis
  proof (cases "\<exists>y \<in> set recs. action_id y = action_id x \<and> user y = usr")
    case True
    let ?f = "\<lambda>y. if action_id y = action_id x \<and> user y = usr then x else y"
    have "?f y \<in> set (upsert usr x recs)"
      using True y(1) by (simp add: upsert_def)
    moreover have "action_id (?f y) = k \<and> user (?f y) = usr"
      using y assms(2) by auto
    ultimately show ?thesis by blast
  next
    case False
    then have "y \<in> set (upsert usr x recs)"
      using y(1) by (simp add: upsert_def)
    then show ?thesis using y by blast
  qed
qed

lemma upsert_member:
  assumes "y \<in> set (upsert usr x recs)"
  shows "y = x \<or> (y \<in> set recs \<and> \<not> (action_id y = action_id x \<and> user y = usr))"
  using assms by (auto simp: upsert_def split: if_splits)

lemma fold_upsert_present:
  assumes "\<forall>x \<in> set xs. user x = usr \<and> (\<exists>y \<in> set recs. action_id y = action_id x \<and> user y = usr)"
  shows "fold (upsert usr) xs recs = map (last_write usr xs) recs"
  using assms
proof (induction xs rule: rev_induct)
  case Nil
  have "last_write usr [] = (\<lambda>y. y)"
    by (rule ext) (simp add: last_write_def)
  then show ?case by simp
next
  case (snoc x xs)
  have ih: "fold (upsert usr) xs recs = map (last_write usr xs) recs"
    using snoc.prems by (intro snoc.IH) simp
  have ux: "user x = usr" using snoc.prems by simp
  have keys: "\<And>y. user y = usr \<Longrightarrow> action_id (last_write usr xs y) = action_id y
                                    \<and> user (last_write usr xs y) = usr"
  proof -
    fix y :: actionRecord assume y: "user y = usr"
    show "action_id (last_write usr xs y) = action_id y \<and> user (last_write usr xs y) = usr"
    proof (cases "find (\<lambda>x. action_id x = action_id y) (rev xs)")
      case None
      with y show ?thesis by (simp add: last_write_def)
    next
      case (Some z)
      then have "z \<in> set xs" "action_id z = action_id y"
        using find_Some_set[of "\<lambda>x. action_id x = action_id y" "rev xs" z] by simp_all
      moreover have "user z = usr" using \<open>z \<in> set xs\<close> snoc.prems by simp
      ultimately show ?thesis using y Some by (simp add: last_write_def)
    qed
  qed
  have other: "\<And>y. user y \<noteq> usr \<Longrightarrow> last_write usr xs y = y"
    by (simp add: last_write_def)
  obtain y0 where y0: "y0 \<in> set recs" "action_id y0 = action_id x" "user y0 = usr"
    using snoc.prems by auto
  have ex: "\<exists>y \<in> set (map (last_write usr xs) recs). action_id y = action_id x \<and> user y = usr"
    using y0 keys[of y0] by force
  have "fold (upsert usr) (xs @ [x]) recs = upsert usr x (map (last_write usr xs) recs)"
    using ih by simp
  also have "\<dots> = map (\<lambda>y. if action_id y = action_id x \<and> user y = usr then x else y)
                     (map (last_write usr xs) recs)"
    using ex by (simp add: upsert_def)
  also have "\<dots> = map ((\<lambda>y. if action_id y = action_id x \<and> user y = usr then x else y)
                          \<circ> last_write usr xs) recs"
    by simp
  also have "(\<lambda>y. if action_id y = action_id x \<and> user y = usr then x else y) \<circ> last_write usr xs
           = last_write usr (xs @ [x])"
  proof (rule ext)
    fix y :: actionRecord
    show "((\<lambda>y. if action_id y = action_id x \<and> user y = usr then x else y) \<circ> last_write usr xs) y
            = last_write usr (xs @ [x]) y"
    proof (cases "user y = usr")
      case True
      then show ?thesis
        using keys[OF True] by (simp add: last_write_def)
    next
      case False
      then show ?thesis
        using other[OF False] by (simp add: last_write_def)
    qed
  qed
  finally show ?case .
qed

lemma fold_upsert_settled:
  assumes "\<forall>x \<in> set xs. user x = usr"
  shows "(\<forall>y \<in> set (fold (upsert usr) xs recs). last_write usr xs y = y)
       \<and> (\<forall>x \<in> set xs. \<exists>y \<in> set (fold (upsert usr) xs recs). action_id y = action_id x \<and> user y = usr)"
  using assms
proof (induction xs rule: rev_induct)
  case Nil
  then show ?case by (simp add: last_write_def)
next
  case (snoc x xs)
  let ?L = "fold (upsert usr) xs recs"
  have ih: "(\<forall>y \<in> set ?L. last_write usr xs y = y)
       \<and> (\<forall>x \<in> set xs. \<exists>y \<in> set ?L. action_id y = action_id x \<and> user y = usr)"
    using snoc.prems by (intro snoc.IH) simp
  have ux: "user x = usr" using snoc.prems by simp
  have f: "fold (upsert usr) (xs @ [x]) recs = upsert usr x ?L" by simp
  have a: "\<forall>y \<in> set (upsert usr x ?L). last_write usr (xs @ [x]) y = y"
  proof
    fix y assume "y \<in> set (upsert usr x ?L)"
    then consider "y = x" | "y \<in> set ?L" "\<not> (action_id y = action_id x \<and> user y = usr)"
      using upsert_member by blast
    then show "last_write usr (xs @ [x]) y = y"
    proof cases
      case 1
      then show ?thesis using ux by (simp add: last_write_def)
    next
      case 2
      then have "last_write usr xs y = y" using ih by simp
      then show ?thesis using 2(2) by (auto simp: last_write_def)
    qed
  qed
  have b: "\<forall>z \<in> set (xs @ [x]). \<exists>y \<in> set (upsert usr x ?L). action_id y = action_id z \<and> user y = usr"
  proof
    fix z assume "z \<in> set (xs @ [x])"
    then consider "z = x" | "z \<in> set xs" by auto
    then show "\<exists>y \<in> set (upsert usr x ?L). action_id y = action_id z \<and> user y = usr"
    proof cases
      case 1
      then show ?thesis using upsert_has_key[OF ux] by simp
    next
      case 2
      then have "\<exists>y \<in> set ?L. action_id y = action_id z \<and> user y = usr" using ih by simp
      then show ?thesis using ux by (rule upsert_keeps_keys)
    qed
  qed
  show ?case
    unfolding f using a b by blast
qed

text \<open>Upserting the same records again changes nothing.\<close>

lemma fold_upsert_again:
  assumes "\<forall>x \<in> set xs. user x = usr"
  shows "fold (upsert usr) xs (fold (upsert usr) xs recs) = fold (upsert usr) xs recs"
proof -
  let ?L = "fold (upsert usr) xs recs"
  note s = fold_upsert_settled[OF assms, of recs]
  have "fold (upsert usr) xs ?L = map (last_write usr xs) ?L"
    using assms s by (intro fold_upsert_present) blast
  also have "\<dots> = map (\<lambda>y. y) ?L"
    using s by (intro map_cong) auto
  finally show ?thesis by simp
qed

text \<open>Upserts go through the removal of records with other keys.\<close>

lemma upsert_filter:
  assumes "keep x" and "\<And>y. action_id y = action_id x \<and> user y = usr \<Longrightarrow> keep y"
  shows "filter keep (upsert usr x recs) = upsert usr x (filter keep recs)"
proof -
  have e: "(\<exists>y \<in> set (filter keep recs). action_id y = action_id x \<and> user y = usr)
         = (\<exists>y \<in> set recs. action_id y = action_id x \<and> user y = usr)"
    using assms(2) by auto
  have m: "filter keep (map (\<lambda>y. if action_id y = action_id x \<and> user y = usr then x else y) recs)
         = map (\<lambda>y. if action_id y = action_id x \<and> user y = usr then x else y) (filter keep recs)"
    using assms by (induction recs) auto
  show ?thesis
    unfolding upsert_def e using m assms(1) by simp
qed

lemma fold_upsert_filter:
  assumes "\<forall>x \<in> set xs. keep x"
    and "\<And>x y. x \<in> set xs \<Longrightarrow> action_id y = action_id x \<and> user y = usr \<Longrightarrow> keep y"
  shows "filter keep (fold (upsert usr) xs recs) = fold (upsert usr) xs (filter keep recs)"
  using assms
proof (induction xs arbitrary: recs)
  case Nil
  then show ?case by simp
next
  case (Cons x xs)
  have "filter keep (fold (upsert usr) xs (upsert usr x recs))
      = fold (upsert usr) xs (filter keep (upsert usr x recs))"
    using Cons.prems by (intro Cons.IH) auto
  also have "filter keep (upsert usr x recs) = upsert usr x (filter keep recs)"
    using Cons.prems by (intro upsert_filter) auto
  finally show ?case by simp
qed

lemma rerun_op_member: "a \<in> set agents \<Longrightarrow> rerun_op [a] op \<Longrightarrow> rerun_op agents op"
  by (cases op) (auto simp: list_ex_iff)

lemma no_id_never_reaches:
  assumes "agentId a = None"
  shows "\<not> reaches_at w oid a x"
proof -
  have "validateAgentConfig a \<noteq> []"
    using assms validate_ok_id[of a] by auto
  then have "isl (prepare w a)" by (simp add: prepare_def)
  then obtain e where "prepare w a = Inl e" by (cases "prepare w a") auto
  then show ?thesis by (simp add: reaches_at_def)
qed

lemma upserts_records:
  assumes "x \<in> set (upserts w oid agents s)"
  shows "user x = oid" and "rerun_op agents (UpdateAction (action_id x))"
proof -
  from assms obtain a where a: "a \<in> set agents" "x \<in> set (written w oid a)"
    by (auto simp: upserts_def split: if_splits)
  show "user x = oid" using written_records(1)[OF a(2)] .
  show "rerun_op agents (UpdateAction (action_id x))"
    using a(1) written_records(2)[OF a(2)] by (rule rerun_op_member)
qed

lemma upserts_cong:
  assumes "\<And>a. a \<in> set agents \<Longrightarrow>
             reaches_at w oid a (lookup s' (tmpl (agentId a))) = reaches_at w oid a (lookup s (tmpl (agentId a)))"
  shows "upserts w oid agents s' = upserts w oid agents s"
  unfolding upserts_def using assms by (intro arg_cong[where f = concat] map_cong) simp_all

text \<open>The action records after the loop over agents without icon files.\<close>

lemma run_actions:
  assumes "\<forall>b \<in> set agents. iconless b"
    and "distinct (map agentId agents)"
    and "distinct (map rec_id (st_agents st))"
    and "set (map agentId agents) \<subseteq> set ids"
    and "owned oid ids st"
    and "\<forall>x. sha256_hex (w_hashing w) x \<noteq> []"
  shows "st_actions (store_after w oid agents st)
       = fold (upsert oid) (upserts w oid agents (store_after w oid agents st)) (st_actions st)"
  using assms(1,2,3,4,5)
proof (induction agents arbitrary: st)
  case Nil
  then show ?case by (simp add: upserts_def)
next
  case (Cons a agents)
  have pa: "iconless a" and pr: "\<forall>b \<in> set agents. iconless b"
    using Cons.prems(1) by simp_all
  have own: "\<forall>r \<in> set (st_agents st). agentId a = Some (rec_id r) \<longrightarrow> rec_author r = oid"
    using Cons.prems(4,5) by (auto simp: owned_def)
  note st = iconless_step[OF pa Cons.prems(3) own assms(6)]
  let ?s1 = "snd (syncAgent w a oid st)"
  let ?s2 = "store_after w oid agents ?s1"
  have sub: "set (map agentId agents) \<subseteq> set ids"
    using Cons.prems(4) by simp
  have o1: "owned oid ids ?s1"
    using store_after_frame[of "[a]" st ids oid w] pa Cons.prems(3,4,5) assms(6) by simp
  have ih: "st_actions ?s2 = fold (upsert oid) (upserts w oid agents ?s2) (st_actions ?s1)"
    using pr Cons.prems(2) st(3) sub o1 by (intro Cons.IH) simp_all
  have here: "reaches_at w oid a (lookup ?s2 (tmpl (agentId a)))
            = reaches_at w oid a (lookup st (tmpl (agentId a)))"
  proof (cases "agentId a")
    case None
    then show ?thesis
      using no_id_never_reaches[OF None, of w oid] by simp
  next
    case (Some i)
    then have "\<forall>b \<in> set agents. agentId b \<noteq> Some i"
      using Cons.prems(2) by force
    then have "lookup ?s2 i = lookup ?s1 i"
      using store_after_frame[OF pr st(3) sub o1 assms(6)] by blast
    moreover have "tmpl (agentId a) = i"
      using Some by (simp add: tmpl_def ostr_def)
    ultimately show ?thesis
      using st(10) by simp
  qed
  have split: "upserts w oid (a # agents) ?s2
             = (if reaches_at w oid a (lookup st (tmpl (agentId a))) then written w oid a else [])
               @ upserts w oid agents ?s2"
    using here by (simp add: upserts_def)
  show ?case
    using ih st(9) by (simp add: split)
qed

text \<open>What the cleanup leaves.\<close>

lemma delete_actions_effect:
  "st_agents (snd (delete_actions w oid xs st)) = st_agents st
   \<and> st_actions (snd (delete_actions w oid xs st))
       = filter (\<lambda>y. \<not> (user y = oid
                          \<and> action_id y \<in> set (takeWhile (\<lambda>x. \<not> db_fails w (DeleteAction x)) xs)))
           (st_actions st)
   \<and> isl (fst (delete_actions w oid xs st)) = (\<not> list_all (\<lambda>x. \<not> db_fails w (DeleteAction x)) xs)"
proof (induction xs arbitrary: st)
  case Nil
  then show ?case by simp
next
  case (Cons x xs)
  show ?case
  proof (cases "db_fails w (DeleteAction x)")
    case True
    then show ?thesis by (simp add: deleteAction_def)
  next
    case False
    let ?s1 = "st\<lparr> st_actions := filter (\<lambda>y. \<not> (action_id y = x \<and> user y = oid)) (st_actions st),
                    st_journal := st_journal st @ [DeleteAction x] \<rparr>"
    have d: "deleteAction w x oid st = (Inr (), ?s1)"
      using False by (simp add: deleteAction_def)
    have f: "filter (\<lambda>y. \<not> (user y = oid
                          \<and> action_id y \<in> set (takeWhile (\<lambda>x. \<not> db_fails w (DeleteAction x)) xs)))
               (filter (\<lambda>y. \<not> (action_id y = x \<and> user y = oid)) (st_actions st))
           = filter (\<lambda>y. \<not> (user y = oid
                          \<and> action_id y \<in> set (x # takeWhile (\<lambda>x. \<not> db_fails w (DeleteAction x)) xs)))
               (st_actions st)"
      by (auto intro: filter_cong)
    show ?thesis
      using False d Cons.IH[of ?s1] f by simp
  qed
qed

lemma remove_agent_effect:
  "st_agents (snd (remove_agent w oid r st))
     = (if removable w r
          then filter (\<lambda>x. \<not> (rec_id x = rec_id r \<and> rec_author x = oid)) (st_agents st)
        else st_agents st)
   \<and> st_actions (snd (remove_agent w oid r st))
       = filter (\<lambda>y. \<not> (user y = oid
                          \<and> action_id y \<in> set (takeWhile (\<lambda>x. \<not> db_fails w (DeleteAction x))
                                                   (rec_actions r))))
           (st_actions st)"
proof -
  obtain res s1 where da: "delete_actions w oid (rec_actions r) st = (res, s1)"
    by (cases "delete_actions w oid (rec_actions r) st")
  note e = delete_actions_effect[of w oid "rec_actions r" st, unfolded da, simplified]
  show ?thesis
  proof (cases res)
    case (Inl err)
    with da e show ?thesis
      by (simp add: remove_agent_def and_then_def removable_def)
  next
    case (Inr u)
    with da e show ?thesis
      by (simp add: remove_agent_def and_then_def removable_def deleteAgent_def)
  qed
qed

lemma remove_loop_effect:
  "st_agents (remove_loop w oid rs st)
     = filter (\<lambda>x. \<not> (rec_author x = oid \<and> (\<exists>r \<in> set rs. removable w r \<and> rec_id r = rec_id x)))
         (st_agents st)
   \<and> st_actions (remove_loop w oid rs st)
       = filter (\<lambda>y. \<not> (user y = oid \<and> action_id y \<in> set (deleted_ids w rs))) (st_actions st)"
proof (induction rs arbitrary: st)
  case Nil
  then show ?case by (simp add: deleted_ids_def)
next
  case (Cons r rs)
  let ?s1 = "snd (remove_agent w oid r st)"
  note e = remove_agent_effect[of w oid r st]
  note ih = Cons.IH[of ?s1]
  have a: "st_agents (remove_loop w oid (r # rs) st)
     = filter (\<lambda>x. \<not> (rec_author x = oid \<and> (\<exists>q \<in> set (r # rs). removable w q \<and> rec_id q = rec_id x)))
         (st_agents st)"
  proof (cases "removable w r")
    case True
    then show ?thesis
      using e ih by (auto intro: filter_cong)
  next
    case False
    then show ?thesis
      using e ih by (auto intro: filter_cong)
  qed
  have b: "st_actions (remove_loop w oid (r # rs) st)
       = filter (\<lambda>y. \<not> (user y = oid \<and> action_id y \<in> set (deleted_ids w (r # rs)))) (st_actions st)"
    using e ih by (auto simp: deleted_ids_def intro: filter_cong)
  show ?case using a b by blast
qed

lemma cleanup_effect:
  "st_agents (snd (cleanupRemovedAgents w ids oid st))
     = (if db_fails w FindAgents then st_agents st
        else filter (\<lambda>x. \<not> (rec_author x = oid
                              \<and> (\<exists>r \<in> set (orphans_of ids oid st). removable w r \<and> rec_id r = rec_id x)))
               (st_agents st))"
  "st_actions (snd (cleanupRemovedAgents w ids oid st))
     = (if db_fails w FindAgents then st_actions st
        else filter (\<lambda>y. \<not> (user y = oid \<and> action_id y \<in> set (deleted_ids w (orphans_of ids oid st))))
               (st_actions st))"
proof -
  have both: "st_agents (snd (cleanupRemovedAgents w ids oid st))
     = (if db_fails w FindAgents then st_agents st
        else filter (\<lambda>x. \<not> (rec_author x = oid
                              \<and> (\<exists>r \<in> set (orphans_of ids oid st). removable w r \<and> rec_id r = rec_id x)))
               (st_agents st))
   \<and> st_actions (snd (cleanupRemovedAgents w ids oid st))
     = (if db_fails w FindAgents then st_actions st
        else filter (\<lambda>y. \<not> (user y = oid \<and> action_id y \<in> set (deleted_ids w (orphans_of ids oid st))))
               (st_actions st))"
  proof (cases "db_fails w FindAgents")
    case True
    then show ?thesis
      by (simp add: cleanupRemovedAgents_def and_then_def findAgents_def)
  next
    case False
    have run: "snd (cleanupRemovedAgents w ids oid st) = remove_loop w oid (orphans_of ids oid st) st"
      using False
      by (cases "orphans_of ids oid st")
         (simp_all add: cleanupRemovedAgents_def and_then_def findAgents_def Let_def orphans_of_def)
    show ?thesis
      using False remove_loop_effect[of w oid "orphans_of ids oid st" st] by (simp add: run)
  qed
  from both show "st_agents (snd (cleanupRemovedAgents w ids oid st))
     = (if db_fails w FindAgents then st_agents st
        else filter (\<lambda>x. \<not> (rec_author x = oid
                              \<and> (\<exists>r \<in> set (orphans_of ids oid st). removable w r \<and> rec_id r = rec_id x)))
               (st_agents st))"
    by blast
  from both show "st_actions (snd (cleanupRemovedAgents w ids oid st))
     = (if db_fails w FindAgents then st_actions st
        else filter (\<lambda>y. \<not> (user y = oid \<and> action_id y \<in> set (deleted_ids w (orphans_of ids oid st))))
               (st_actions st))"
    by blast
qed

lemma orphans_subset:
  "set (st_agents st') \<subseteq> set (st_agents st) \<Longrightarrow> set (orphans_of ids oid st') \<subseteq> set (orphans_of ids oid st)"
  by (auto simp: orphans_of_def)

lemma deleted_ids_mono:
  "set rs' \<subseteq> set rs \<Longrightarrow> set (deleted_ids w rs') \<subseteq> set (deleted_ids w rs)"
  by (auto simp: deleted_ids_def)

lemma deleted_ids_listed:
  "x \<in> set (deleted_ids w rs) \<Longrightarrow> \<exists>r \<in> set rs. x \<in> set (rec_actions r)"
  by (auto simp: deleted_ids_def dest: set_takeWhileD)

lemma filter_filter_again:
  assumes "\<And>x. x \<in> set xs \<Longrightarrow> P x \<Longrightarrow> Q x"
  shows "filter Q (filter P xs) = filter P xs"
  using assms by (induction xs) auto

text \<open>
  Two of the conditions under which the second run is studied below. When two
  declarations share an id, each run writes the one over the other, and the record gains
  two versions in every run. When an agent that has left the configuration lists the id
  of a declared action (here by the collision of two ids), the cleanup of the first run
  deletes the action of the declared agent, and the second run stores it again.
\<close>

lemma shared_id_gains_versions:
  "map (\<lambda>r. length (rec_versions r))
     (st_agents (snd (syncDefaultAgents sample_world (Some [support_agent, helpdesk_agent]) empty_store)))
     = [2]
   \<and> map (\<lambda>r. length (rec_versions r))
        (st_agents (snd (syncDefaultAgents sample_world (Some [support_agent, helpdesk_agent])
           (snd (syncDefaultAgents sample_world (Some [support_agent, helpdesk_agent]) empty_store)))))
     = [4]"
  by code_simp

lemma cleanup_deletes_declared_action:
  "map action_id
     (st_actions (snd (syncDefaultAgents sample_world (Some [former_agent]) empty_store)))
     = [''api_weather_test_support'']
   \<and> map action_id
        (st_actions (snd (syncDefaultAgents sample_world (Some [successor_agent])
           (snd (syncDefaultAgents sample_world (Some [former_agent]) empty_store)))))
     = []
   \<and> map action_id
        (st_actions (snd (syncDefaultAgents sample_world (Some [successor_agent])
           (snd (syncDefaultAgents sample_world (Some [successor_agent])
              (snd (syncDefaultAgents sample_world (Some [former_agent]) empty_store)))))))
     = [''api_weather_test_support'']"
  by code_simp

text \<open>
  C3, as claimed: the second of two runs on an unchanged configuration writes no agent
  and no action. With one agent that declares one action, the second run upserts the
  action and updates the agent again; with one agent that declares an icon file, the
  second run stores the icon under a fresh name, so that the hash differs and the agent
  gains a version.
\<close>

theorem second_run_writes_again:
  "st_journal (snd (syncDefaultAgents sample_world (Some [agent_with_action])
                      (snd (syncDefaultAgents sample_world (Some [agent_with_action]) empty_store))))
     = st_journal (snd (syncDefaultAgents sample_world (Some [agent_with_action]) empty_store))
         @ [UpdateAction ''api.weather.test_support'', UpdateAgent ''support'']
   \<and> st_journal (snd (syncDefaultAgents sample_world (Some [agent_with_icon])
                      (snd (syncDefaultAgents sample_world (Some [agent_with_icon]) empty_store))))
     = st_journal (snd (syncDefaultAgents sample_world (Some [agent_with_icon]) empty_store))
         @ [UpdateAgent ''support'']
   \<and> map (\<lambda>r. length (rec_versions r))
        (st_agents (snd (syncDefaultAgents sample_world (Some [agent_with_icon]) empty_store)))
     = [1]
   \<and> map (\<lambda>r. length (rec_versions r))
        (st_agents (snd (syncDefaultAgents sample_world (Some [agent_with_icon])
                      (snd (syncDefaultAgents sample_world (Some [agent_with_icon]) empty_store)))))
     = [2]"
  by code_simp

text \<open>
  C3, amended. Let the declared agents have distinct ids and declare no icon file; let the
  stored agents have distinct ids, let no declared id be held by a record of another
  owner, and let the digest never be empty. Then, for the second of two runs in
  succession: its \<open>syncedCount\<close> is that of the first run; the agent records stored after
  it are those stored after the first run, unchanged, so that no agent is created and no
  record gains a version; and the only writes that succeed during it are, for the agents
  that declare at least one action, the upserts of their declared actions and the update
  of their action list, besides the deletions of the cleanup (a write that the database
  refused in the first run is tried, and refused, again). If moreover no stored agent of
  the system owner outside the declaration lists the id of a declared action, the action
  records stored after the second run are those stored after the first run, unchanged:
  the writes that are issued again write what is stored already.
\<close>

theorem second_run_keeps_records:
  assumes ic: "\<forall>a \<in> set agents. iconless a"
    and da: "distinct (map agentId agents)"
    and ds: "distinct (map rec_id (st_agents st))"
    and ow: "owned (getDefaultObjectId w) (map agentId agents) st"
    and nz: "\<forall>x. sha256_hex (w_hashing w) x \<noteq> []"
  shows "syncedCount (fst (syncDefaultAgents w (Some agents)
                              (snd (syncDefaultAgents w (Some agents) st))))
           = syncedCount (fst (syncDefaultAgents w (Some agents) st))
       \<and> st_agents (snd (syncDefaultAgents w (Some agents)
                            (snd (syncDefaultAgents w (Some agents) st))))
           = st_agents (snd (syncDefaultAgents w (Some agents) st))
       \<and> grown (rerun_op agents) (snd (syncDefaultAgents w (Some agents) st))
           (snd (syncDefaultAgents w (Some agents) (snd (syncDefaultAgents w (Some agents) st))))
       \<and> (spares (getDefaultObjectId w) agents st \<longrightarrow>
            st_actions (snd (syncDefaultAgents w (Some agents)
                               (snd (syncDefaultAgents w (Some agents) st))))
              = st_actions (snd (syncDefaultAgents w (Some agents) st)))"
proof (cases "agents = []")
  case True
  then show ?thesis by (simp add: syncDefaultAgents_def grown_refl)
next
  case ne: False
  let ?oid = "getDefaultObjectId w"
  let ?ids = "map agentId agents"
  let ?se = "store_after w ?oid agents st"
  let ?st1 = "snd (syncDefaultAgents w (Some agents) st)"
  let ?se2 = "store_after w ?oid agents ?st1"
  let ?st2 = "snd (syncDefaultAgents w (Some agents) ?st1)"
  have sub: "set (map agentId agents) \<subseteq> set ?ids" by simp
  have st1: "?st1 = snd (cleanupRemovedAgents w ?ids ?oid ?se)"
    by (rule syncDefaultAgents_store[OF ne])
  note fr0 = store_after_frame[OF ic ds sub ow nz]
  have dse: "distinct (map rec_id (st_agents ?se))" and ose: "owned ?oid ?ids ?se"
    using fr0 by blast+
  have c1: "cleaned ?ids ?se ?st1"
    unfolding st1 by (rule cleanup_cleaned)
  then have d1: "distinct (map rec_id (st_agents ?st1))"
    using dse by (simp add: cleaned_def)
  have o1: "owned ?oid ?ids ?st1"
    using c1 ose by (auto simp: cleaned_def intro: owned_subset)
  note fr = first_run[OF ic da ds sub ow nz]
  have lk1: "\<And>a i. a \<in> set agents \<Longrightarrow> agentId a = Some i \<Longrightarrow>
               lookup ?st1 (tmpl (agentId a)) = lookup ?se (tmpl (agentId a))"
  proof -
    fix a i assume a: "a \<in> set agents" "agentId a = Some i"
    then have "Some i \<in> set ?ids" by force
    then have "lookup ?st1 i = lookup ?se i"
      using c1 by (simp add: cleaned_def)
    moreover have "tmpl (agentId a) = i"
      using a(2) by (simp add: tmpl_def ostr_def)
    ultimately show "lookup ?st1 (tmpl (agentId a)) = lookup ?se (tmpl (agentId a))"
      by simp
  qed
  have tr: "\<And>a. a \<in> set agents \<Longrightarrow>
        quiet_at w ?oid a (lookup ?st1 (tmpl (agentId a)))
        \<and> ok_at w ?oid a (lookup ?st1 (tmpl (agentId a)))
            = ok_at w ?oid a (lookup ?se (tmpl (agentId a)))"
  proof -
    fix a assume a: "a \<in> set agents"
    show "quiet_at w ?oid a (lookup ?st1 (tmpl (agentId a)))
        \<and> ok_at w ?oid a (lookup ?st1 (tmpl (agentId a)))
            = ok_at w ?oid a (lookup ?se (tmpl (agentId a)))"
    proof (cases "agentId a")
      case None
      then show ?thesis
        using no_id_never_prepared[OF None] by simp
    next
      case (Some i)
      moreover have "quiet_at w ?oid a (lookup ?se (tmpl (agentId a)))"
        using fr a by blast
      ultimately show ?thesis
        using lk1[OF a Some] by simp
    qed
  qed
  have q1: "\<forall>a \<in> set agents. quiet_at w ?oid a (lookup ?st1 (tmpl (agentId a)))"
    using tr by blast
  note sr = second_run[OF ic d1 sub o1 nz q1]
  have same: "st_agents ?se2 = st_agents ?st1"
    using sr by blast
  have g2: "grown (rerun_op agents) ?st1 ?se2"
    using sr by blast
  have kinds: "map (\<lambda>r. \<not> isl r) (attempts w ?oid agents ?st1)
             = map (\<lambda>r. \<not> isl r) (attempts w ?oid agents st)"
  proof -
    have "map (\<lambda>r. \<not> isl r) (attempts w ?oid agents ?st1)
        = map (\<lambda>a. ok_at w ?oid a (lookup ?st1 (tmpl (agentId a)))) agents"
      using sr by blast
    also have "\<dots> = map (\<lambda>a. ok_at w ?oid a (lookup ?se (tmpl (agentId a)))) agents"
      using tr by (intro map_cong) simp_all
    also have "\<dots> = map (\<lambda>r. \<not> isl r) (attempts w ?oid agents st)"
      using fr by simp
    finally show ?thesis .
  qed
  have st2: "?st2 = snd (cleanupRemovedAgents w ?ids ?oid ?se2)"
    by (rule syncDefaultAgents_store[OF ne])
  have c2: "cleaned ?ids ?se2 ?st2"
    unfolding st2 by (rule cleanup_cleaned)
  have cnt: "syncedCount (fst (syncDefaultAgents w (Some agents) ?st1))
           = syncedCount (fst (syncDefaultAgents w (Some agents) st))"
    using syncDefaultAgents_agents[OF ne, of w ?st1] syncDefaultAgents_agents[OF ne, of w st] kinds
    by (simp add: succeeded_map)
  have "grown is_delete ?se2 ?st2"
    using c2 by (simp add: cleaned_def)
  then have "grown (rerun_op agents) ?se2 ?st2"
    by (rule grown_mono) (rule rerun_op_delete)
  with g2 have j2: "grown (rerun_op agents) ?st1 ?st2"
    by (rule grown_trans)
  let ?O1 = "orphans_of ?ids ?oid ?se"
  let ?O2 = "orphans_of ?ids ?oid ?se2"
  have sub1: "set (st_agents ?st1) \<subseteq> set (st_agents ?se)"
    using c1 by (simp add: cleaned_def)
  have O21: "set ?O2 \<subseteq> set ?O1"
    using sub1 same by (intro orphans_subset) simp
  have agents2: "st_agents ?st2 = st_agents ?st1"
  proof (cases "db_fails w FindAgents")
    case True
    then show ?thesis
      using same by (simp add: st2 cleanup_effect(1))
  next
    case False
    let ?sw1 = "\<lambda>x. \<not> (rec_author x = ?oid \<and> (\<exists>r \<in> set ?O1. removable w r \<and> rec_id r = rec_id x))"
    let ?sw2 = "\<lambda>x. \<not> (rec_author x = ?oid \<and> (\<exists>r \<in> set ?O2. removable w r \<and> rec_id r = rec_id x))"
    have a1: "st_agents ?st1 = filter ?sw1 (st_agents ?se)"
      using False by (simp add: st1 cleanup_effect(1))
    have "st_agents ?st2 = filter ?sw2 (st_agents ?se2)"
      using False by (simp add: st2 cleanup_effect(1))
    also have "\<dots> = filter ?sw2 (filter ?sw1 (st_agents ?se))"
      using same a1 by simp
    also have "\<dots> = filter ?sw1 (st_agents ?se)"
      using O21 by (intro filter_filter_again) blast
    finally show ?thesis using a1 by simp
  qed
  have acts2: "spares ?oid agents st \<longrightarrow> st_actions ?st2 = st_actions ?st1"
  proof
    assume sp: "spares ?oid agents st"
    let ?Us = "upserts w ?oid agents ?se"
    have L1: "st_actions ?se = fold (upsert ?oid) ?Us (st_actions st)"
      by (rule run_actions[OF ic da ds sub ow nz])
    have "upserts w ?oid agents ?se2 = upserts w ?oid agents ?se"
    proof (rule upserts_cong)
      fix a assume a: "a \<in> set agents"
      show "reaches_at w ?oid a (lookup ?se2 (tmpl (agentId a)))
          = reaches_at w ?oid a (lookup ?se (tmpl (agentId a)))"
      proof (cases "agentId a")
        case None
        then show ?thesis using no_id_never_reaches[OF None, of w ?oid] by simp
      next
        case (Some i)
        then show ?thesis
          using lk1[OF a Some] lookup_agents[OF same] by simp
      qed
    qed
    then have M: "st_actions ?se2 = fold (upsert ?oid) ?Us (st_actions ?st1)"
      using run_actions[OF ic da d1 sub o1 nz] by simp
    have usr: "\<forall>x \<in> set ?Us. user x = ?oid"
      using upserts_records(1) by blast
    have again: "fold (upsert ?oid) ?Us (st_actions ?se) = st_actions ?se"
      unfolding L1 using usr by (rule fold_upsert_again)
    show "st_actions ?st2 = st_actions ?st1"
    proof (cases "db_fails w FindAgents")
      case True
      have "st_actions ?st1 = st_actions ?se"
        using True by (simp add: st1 cleanup_effect(2))
      moreover have "st_actions ?st2 = st_actions ?se2"
        using True by (simp add: st2 cleanup_effect(2))
      ultimately show ?thesis using M again by simp
    next
      case False
      let ?keep1 = "\<lambda>y. \<not> (user y = ?oid \<and> action_id y \<in> set (deleted_ids w ?O1))"
      let ?keep2 = "\<lambda>y. \<not> (user y = ?oid \<and> action_id y \<in> set (deleted_ids w ?O2))"
      have a1: "st_actions ?st1 = filter ?keep1 (st_actions ?se)"
        using False by (simp add: st1 cleanup_effect(2))
      have a2: "st_actions ?st2 = filter ?keep2 (st_actions ?se2)"
        using False by (simp add: st2 cleanup_effect(2))
      have spared: "\<And>k. rerun_op agents (UpdateAction k) \<Longrightarrow> k \<notin> set (deleted_ids w ?O1)"
      proof
        fix k assume k: "rerun_op agents (UpdateAction k)" "k \<in> set (deleted_ids w ?O1)"
        then obtain r where r: "r \<in> set ?O1" "k \<in> set (rec_actions r)"
          using deleted_ids_listed by blast
        then have r1: "r \<in> set (st_agents ?se)" "rec_author r = ?oid" "Some (rec_id r) \<notin> set ?ids"
          by (auto simp: orphans_of_def)
        then have "\<forall>b \<in> set agents. agentId b \<noteq> Some (rec_id r)"
          by force
        then have "r \<in> set (st_agents st)"
          using fr0 r1(1) by blast
        then have "\<not> rerun_op agents (UpdateAction k)"
          using sp r1(2,3) r(2) by (auto simp: spares_def)
        with k(1) show False by simp
      qed
      have keepU: "\<forall>x \<in> set ?Us. ?keep1 x"
        using upserts_records(2) spared by blast
      have keepK: "\<And>x y. x \<in> set ?Us \<Longrightarrow> action_id y = action_id x \<and> user y = ?oid \<Longrightarrow> ?keep1 y"
        using upserts_records(2) spared by metis
      have "st_actions ?se2 = fold (upsert ?oid) ?Us (filter ?keep1 (st_actions ?se))"
        using M a1 by simp
      also have "\<dots> = filter ?keep1 (fold (upsert ?oid) ?Us (st_actions ?se))"
        using keepU keepK by (intro fold_upsert_filter[symmetric]) 
      also have "\<dots> = st_actions ?st1"
        using again a1 by simp
      finally have M1: "st_actions ?se2 = st_actions ?st1" .
      have "st_actions ?st2 = filter ?keep2 (filter ?keep1 (st_actions ?se))"
        using a2 M1 a1 by simp
      also have "\<dots> = filter ?keep1 (st_actions ?se)"
        using deleted_ids_mono[OF O21, of w] by (intro filter_filter_again) blast
      finally show ?thesis using a1 by simp
    qed
  qed
  show ?thesis
    using cnt agents2 j2 acts2 by simp
qed

theorem second_run_keeps_records_witness:
  "iconless agent_with_action \<and> iconless broken_agent \<and> iconless sales_agent
   \<and> distinct (map agentId [agent_with_action, broken_agent, sales_agent])
   \<and> map rec_id (st_agents store_with_orphan) = [''retired'']
   \<and> (\<forall>x. sha256_hex (w_hashing sample_world) x \<noteq> [])
   \<and> syncedCount (fst (syncDefaultAgents sample_world (Some [agent_with_action, broken_agent, sales_agent])
           (snd (syncDefaultAgents sample_world (Some [agent_with_action, broken_agent, sales_agent])
                   store_with_orphan)))) = 2
   \<and> map (\<lambda>r. (rec_id r, rec_actions r, length (rec_versions r)))
        (st_agents (snd (syncDefaultAgents sample_world (Some [agent_with_action, broken_agent, sales_agent])
           (snd (syncDefaultAgents sample_world (Some [agent_with_action, broken_agent, sales_agent])
                   store_with_orphan)))))
       = [(''support'', [''api.weather.test_support''], 1), (''sales'', [], 1)]
   \<and> map action_id
        (st_actions (snd (syncDefaultAgents sample_world (Some [agent_with_action, broken_agent, sales_agent])
           (snd (syncDefaultAgents sample_world (Some [agent_with_action, broken_agent, sales_agent])
                   store_with_orphan)))))
       = [''api.weather.test_support'']
   \<and> grown (rerun_op [agent_with_action, broken_agent, sales_agent])
        (snd (syncDefaultAgents sample_world (Some [agent_with_action, broken_agent, sales_agent])
                store_with_orphan))
        (snd (syncDefaultAgents sample_world (Some [agent_with_action, broken_agent, sales_agent])
           (snd (syncDefaultAgents sample_world (Some [agent_with_action, broken_agent, sales_agent])
                   store_with_orphan))))"
proof -
  let ?agents = "[agent_with_action, broken_agent, sales_agent]"
  have p: "iconless agent_with_action \<and> iconless broken_agent \<and> iconless sales_agent"
    by code_simp
  then have ic: "\<forall>a \<in> set ?agents. iconless a"
    by simp
  have da: "distinct (map agentId ?agents)"
    by code_simp
  have ids: "map rec_id (st_agents store_with_orphan) = [''retired'']"
    by code_simp
  then have ds: "distinct (map rec_id (st_agents store_with_orphan))"
    by simp
  have ow: "owned (getDefaultObjectId sample_world) (map agentId ?agents) store_with_orphan"
    by code_simp
  have nz: "\<forall>x. sha256_hex (w_hashing sample_world) x \<noteq> []"
    by (simp add: sample_world_def)
  have sp: "spares (getDefaultObjectId sample_world) ?agents store_with_orphan"
    by code_simp
  have c1: "syncedCount (fst (syncDefaultAgents sample_world (Some ?agents) store_with_orphan)) = 2"
    by code_simp
  have a1: "map (\<lambda>r. (rec_id r, rec_actions r, length (rec_versions r)))
              (st_agents (snd (syncDefaultAgents sample_world (Some ?agents) store_with_orphan)))
            = [(''support'', [''api.weather.test_support''], 1), (''sales'', [], 1)]"
    by code_simp
  have b1: "map action_id
              (st_actions (snd (syncDefaultAgents sample_world (Some ?agents) store_with_orphan)))
            = [''api.weather.test_support'']"
    by code_simp
  show ?thesis
    using second_run_keeps_records[OF ic da ds ow nz] p da ids nz sp c1 a1 b1 by simp
qed

end
